theory Spec2Isabelle
  imports Complex_Main "HOL-Library.Word" "HOL-Library.Sublist"
begin

section \<open>Wake2Text: the streaming session controller\<close>

text \<open>
  The repository holds two variants of one class, \<open>WhisperStreamingTranscriber\<close>:
  \<open>src/main.cpp\<close> calls the Whisper C API in process, and
  \<open>src/whisper_streaming_transcriber.cpp\<close> spawns \<open>whisper-cli.exe\<close> and parses its
  console output. Both share the session loop \<open>startStreaming\<close>, the speech gate
  \<open>hasSubstantialSpeech\<close>, the chunk window \<open>processAudioChunk\<close> and
  \<open>finalizeTranscription\<close>; they differ in \<open>transcribeWithWhisper\<close>, in the overlap
  constants and in where the hallucination filter runs.

  The member variables of the class become a record, every member function a function that
  takes the record and returns the updated one. The three external collaborators (hotword
  detector, voice-activity detector, recognition engine) are inputs of the model: the detector's
  and the classifier's verdicts arrive with each frame, and the engine is a function from the
  number of the invocation and the audio handed over to the raw outcome of that invocation.
\<close>

subsection \<open>Samples and constants\<close>

text \<open>A sample is a C++ \<open>short\<close>: a 16-bit word read as two's complement by \<open>sint\<close>.\<close>

type_synonym sample = "16 word"

definition SILENCE_THRESHOLD :: int where
  "SILENCE_THRESHOLD = 30"

definition MIN_SPEECH_LENGTH :: int where
  "MIN_SPEECH_LENGTH = 8000"

definition TRANSCRIPTION_CHUNK_SIZE :: nat where
  "TRANSCRIPTION_CHUNK_SIZE = 48000"

subsection \<open>Arithmetic in \<open>double\<close>\<close>

text \<open>
  A \<open>double\<close> is a number of the IEEE 754 binary64 format: a real number with 53 significant
  binary digits, an infinity, or NaN. Every operation returns the exact result rounded to the
  nearest such number, to the one with an even last digit when two are equally near; this is
  the rounding in force in a C++ program that does not change it, and \<open>sqrt\<close> rounds in the
  same way. The two zeros are not told apart (no comparison does).
\<close>

datatype dbl = Fin real | PosInf | NegInf | NaN

text \<open>The nearest integer, the even one of two that are equally near.\<close>

definition rne :: "real \<Rightarrow> int" where
  "rne y =
     (let f = \<lfloor>y\<rfloor>; d = y - real_of_int f
      in if d < 1 / 2 then f else if 1 / 2 < d then f + 1 else if even f then f else f + 1)"

text \<open>
  Rounding to 53 significant digits: a number \<open>x\<close> with \<open>2 ^ e \<le> \<bar>x\<bar> < 2 ^ (e + 1)\<close> is
  rounded to a multiple of \<open>2 ^ (e - 52)\<close>; below \<open>2 ^ (- 1022)\<close> the spacing stays that of
  the exponent \<open>- 1022\<close> (the subnormal numbers).
\<close>

definition round_real :: "real \<Rightarrow> real" where
  "round_real x =
     (if x = 0 then 0
      else
        let e = max \<lfloor>log 2 \<bar>x\<bar>\<rfloor> (- 1022);
            ulp = 2 powr real_of_int (e - 52)
        in real_of_int (rne (x / ulp)) * ulp)"

text \<open>A rounded result of magnitude \<open>2 ^ 1024\<close> or more overflows to an infinity.\<close>

definition round_double :: "real \<Rightarrow> dbl" where
  "round_double x =
     (let r = round_real x
      in if 2 ^ 1024 \<le> \<bar>r\<bar> then (if 0 < r then PosInf else NegInf) else Fin r)"

text \<open>
  The conversion of a \<open>long long\<close>, an \<open>int\<close> or a \<open>size_t\<close> to \<open>double\<close>: the value
  rounded. A 64-bit integer is far below \<open>2 ^ 1024\<close>, so the result is finite.
\<close>

definition double_of_int :: "int \<Rightarrow> real" where
  "double_of_int m = round_real (real_of_int m)"

text \<open>The quotient of two finite numbers; a division by zero yields NaN or an infinity.\<close>

definition dbl_div :: "real \<Rightarrow> real \<Rightarrow> dbl" where
  "dbl_div a b =
     (if b \<noteq> 0 then round_double (a / b)
      else if a = 0 then NaN
      else if 0 < a then PosInf
      else NegInf)"

fun dbl_sqrt :: "dbl \<Rightarrow> dbl" where
  "dbl_sqrt (Fin x) = (if x < 0 then NaN else round_double (sqrt x))"
| "dbl_sqrt PosInf = PosInf"
| "dbl_sqrt NegInf = NaN"
| "dbl_sqrt NaN = NaN"

text \<open>\<open>x < c\<close> for a finite \<open>c\<close>; every comparison with NaN is false.\<close>

fun dbl_less :: "dbl \<Rightarrow> real \<Rightarrow> bool" where
  "dbl_less (Fin x) c = (x < c)"
| "dbl_less NegInf c = True"
| "dbl_less PosInf c = False"
| "dbl_less NaN c = False"

subsection \<open>The speech gate: \<open>hasSubstantialSpeech\<close>\<close>

text \<open>
  The integer accumulators \<open>long long sum_squares\<close> and \<open>int speech_samples\<close> are modelled
  as unbounded integers: \<open>sum_squares_bounds\<close> and \<open>speech_samples_bounds\<close> below show that
  they stay inside their machine ranges for every chunk the program builds
  (\<open>TRANSCRIPTION_CHUNK_SIZE\<close> samples). The threshold \<open>50.0\<close> is a double; the literal
  \<open>0.005\<close> is not and stands for the double nearest to it.
\<close>

definition MIN_RMS_THRESHOLD :: real where
  "MIN_RMS_THRESHOLD = 50"

definition SPEECH_THRESHOLD :: int where
  "SPEECH_THRESHOLD = 200"

text \<open>The first loop: \<open>sum_squares += (long long)sample * sample\<close>.\<close>

definition sum_squares :: "sample list \<Rightarrow> int" where
  "sum_squares audio_chunk =
     fold (\<lambda>sample acc. acc + sint sample * sint sample) audio_chunk 0"

text \<open>The second loop: \<open>if (abs(sample) > SPEECH_THRESHOLD) speech_samples++\<close>.\<close>

definition speech_samples :: "sample list \<Rightarrow> int" where
  "speech_samples audio_chunk =
     fold (\<lambda>sample n. if \<bar>sint sample\<bar> > SPEECH_THRESHOLD then n + 1 else n) audio_chunk 0"

text \<open>\<open>double rms = sqrt((double)sum_squares / audio_chunk.size())\<close>\<close>

definition rms :: "sample list \<Rightarrow> dbl" where
  "rms audio_chunk =
     dbl_sqrt (dbl_div (double_of_int (sum_squares audio_chunk))
                 (double_of_int (int (length audio_chunk))))"

text \<open>\<open>double speech_ratio = (double)speech_samples / audio_chunk.size()\<close>\<close>

definition speech_ratio :: "sample list \<Rightarrow> dbl" where
  "speech_ratio audio_chunk =
     dbl_div (double_of_int (speech_samples audio_chunk))
       (double_of_int (int (length audio_chunk)))"

definition hasSubstantialSpeech :: "sample list \<Rightarrow> bool" where
  "hasSubstantialSpeech audio_chunk =
     (if audio_chunk = [] then False
      else if dbl_less (rms audio_chunk) MIN_RMS_THRESHOLD then False
      else if dbl_less (speech_ratio audio_chunk) (round_real 0.005) then False
      else True)"

text \<open>
  The gate in the words of the specification, in exact arithmetic: the root-mean-square
  amplitude of a chunk and the fraction of its samples whose absolute value exceeds the
  per-sample activity threshold.
\<close>

definition rms_amplitude :: "sample list \<Rightarrow> real" where
  "rms_amplitude audio_chunk =
     sqrt ((\<Sum>x\<leftarrow>audio_chunk. (real_of_int (sint x))\<^sup>2) / real (length audio_chunk))"

definition activity_ratio :: "sample list \<Rightarrow> real" where
  "activity_ratio audio_chunk =
     real (length (filter (\<lambda>x. \<bar>sint x\<bar> > 200) audio_chunk)) / real (length audio_chunk)"


subsection \<open>Strings\<close>

text \<open>
  A \<open>std::string\<close> is a list of bytes. \<open>npos\<close>, the result of a search that finds nothing,
  is \<open>None\<close>. \<open>::tolower\<close> is the one of the "C" locale: it maps the upper-case ASCII
  letters and leaves every other byte, the bytes of a UTF-8 sequence among them, as it is.
\<close>

definition tolower :: "char \<Rightarrow> char" where
  "tolower c =
     (let n = (of_char c :: nat) in if 65 \<le> n \<and> n \<le> 90 then char_of (n + 32) else c)"

text \<open>\<open>s.find(needle)\<close>: the first position where \<open>needle\<close> starts.\<close>

fun str_find :: "string \<Rightarrow> string \<Rightarrow> nat option" where
  "str_find [] needle = (if needle = [] then Some 0 else None)"
| "str_find (c # cs) needle =
     (if prefix needle (c # cs) then Some 0 else map_option Suc (str_find cs needle))"

text \<open>\<open>s.find(needle, pos)\<close>\<close>

definition find_at :: "string \<Rightarrow> string \<Rightarrow> nat \<Rightarrow> nat option" where
  "find_at s needle pos =
     (if pos \<le> length s then map_option (\<lambda>i. pos + i) (str_find (drop pos s) needle) else None)"

definition find_first_not_of :: "string \<Rightarrow> string \<Rightarrow> nat option" where
  "find_first_not_of s chars =
     (let n = length (takeWhile (\<lambda>c. c \<in> set chars) s)
      in if n < length s then Some n else None)"

definition find_last_not_of :: "string \<Rightarrow> string \<Rightarrow> nat option" where
  "find_last_not_of s chars =
     (let n = length (takeWhile (\<lambda>c. c \<in> set chars) (rev s))
      in if n < length s then Some (length s - 1 - n) else None)"

text \<open>\<open>s.substr(pos, len)\<close>, for \<open>pos \<le> s.size()\<close>.\<close>

definition substr :: "string \<Rightarrow> nat \<Rightarrow> nat \<Rightarrow> string" where
  "substr s pos len = take len (drop pos s)"

text \<open>
  The \<open>trim\<close> lambda of \<open>transcribeWithWhisper\<close>, also written out in \<open>main.cpp\<close>: strip
  blanks, tabs, line feeds and carriage returns from both ends.
\<close>

definition whitespace :: string where
  "whitespace = [CHR '' '', CHR 0x09, CHR 0x0A, CHR 0x0D]"

definition trim :: "string \<Rightarrow> string" where
  "trim s =
     (case find_first_not_of s whitespace of
        None \<Rightarrow> []
      | Some start \<Rightarrow>
          (case find_last_not_of s whitespace of
             Some end' \<Rightarrow> substr s start (end' - start + 1)
           | None \<Rightarrow> drop start s))"

text \<open>\<open>std::to_string\<close> of an unsigned number.\<close>

fun to_string :: "nat \<Rightarrow> string" where
  "to_string n =
     (if n < 10 then [char_of (48 + n)] else to_string (n div 10) @ [char_of (48 + n mod 10)])"

subsection \<open>The hallucination filter\<close>

text \<open>
  The first entry of the fragment list is the Greek word for subtitles; \<open>main.cpp\<close> holds it as
  18 bytes of UTF-8, \<open>whisper_streaming_transcriber.cpp\<close> as the 40 bytes that result from
  encoding those bytes a second time. Both are given byte by byte, as the source files hold them.
\<close>

definition hallucinations :: "string list" where
  "hallucinations =
     [[CHR 0xCF, CHR 0x85, CHR 0xCF, CHR 0x80, CHR 0xCF, CHR 0x8C, CHR 0xCF, CHR 0x84, CHR 0xCE,
       CHR 0xB9, CHR 0xCF, CHR 0x84, CHR 0xCE, CHR 0xBB, CHR 0xCE, CHR 0xBF, CHR 0xCE, CHR 0xB9],
      ''authorwave'', ''subtitles'', ''subtitle'', ''closed captions'',
      ''captioning'', ''transcription'', ''transcript'', ''audio'', ''music'',
      ''[music]'', ''[sound]'', ''[noise]'', ''[silence]'', ''[inaudible]'',
      ''thank you'', ''thanks for watching'', ''subscribe'', ''like and subscribe'',
      ''www.'', ''.com'', ''http'', ''https'',
      ''undertekster'', ''ai-media'', ''ai media'', ''undertekst'', ''tekster'',
      ''untertitel'', ''sous-titres'', ''legendas'', ''sottotitoli'']"

definition hallucinations_cli :: "string list" where
  "hallucinations_cli =
     [[CHR 0xC3, CHR 0x8F, CHR 0xE2, CHR 0x80, CHR 0xA6, CHR 0xC3, CHR 0x8F, CHR 0xE2, CHR 0x82,
       CHR 0xAC, CHR 0xC3, CHR 0x8F, CHR 0xC5, CHR 0x92, CHR 0xC3, CHR 0x8F, CHR 0xE2, CHR 0x80,
       CHR 0x9E, CHR 0xC3, CHR 0x8E, CHR 0xC2, CHR 0xB9, CHR 0xC3, CHR 0x8F, CHR 0xE2, CHR 0x80,
       CHR 0x9E, CHR 0xC3, CHR 0x8E, CHR 0xC2, CHR 0xBB, CHR 0xC3, CHR 0x8E, CHR 0xC2, CHR 0xBF,
       CHR 0xC3, CHR 0x8E, CHR 0xC2, CHR 0xB9],
      ''authorwave'', ''subtitles'', ''subtitle'', ''closed captions'',
      ''captioning'', ''transcription'', ''transcript'', ''audio'', ''music'',
      ''[music]'', ''[sound]'', ''[noise]'', ''[silence]'', ''[inaudible]'',
      ''thank you'', ''thanks for watching'', ''subscribe'', ''like and subscribe'',
      ''www.'', ''.com'', ''http'', ''https'',
      ''undertekster'', ''ai-media'', ''ai media'', ''undertekst'', ''tekster'',
      ''untertitel'', ''sous-titres'', ''legendas'', ''sottotitoli'']"

definition standalone_hallucinations :: "string list" where
  "standalone_hallucinations =
     [''thankyou'', ''thankyouforwatching'', ''thanks'', ''thanksforwatching'',
      ''subscribe'', ''likeandsubscribe'', ''pleasesubscribe'']"

text \<open>The predicate of the \<open>remove_if\<close>: punctuation and white space.\<close>

definition is_punct_or_space :: "char \<Rightarrow> bool" where
  "is_punct_or_space c =
     (c = CHR ''.'' \<or> c = CHR '','' \<or> c = CHR ''!'' \<or> c = CHR ''?'' \<or> c = CHR '' ''
      \<or> c = CHR 0x09 \<or> c = CHR 0x0A \<or> c = CHR 0x0D)"

text \<open>\<open>isHallucination\<close> of \<open>main.cpp\<close>.\<close>

definition isHallucination :: "string \<Rightarrow> bool" where
  "isHallucination text =
     (let lower_text = map tolower text in
      if list_ex (\<lambda>halluc. str_find lower_text halluc \<noteq> None) hallucinations then True
      else
        let trimmed = filter (\<lambda>c. \<not> is_punct_or_space c) lower_text in
        if list_ex (\<lambda>standalone. trimmed = standalone) standalone_hallucinations then True
        else False)"

text \<open>
  The same two checks as \<open>whisper_streaming_transcriber.cpp\<close> writes them out, once in
  \<open>handle_line\<close> and once in \<open>processAudioChunk\<close>, over its own fragment list.
\<close>

definition is_hallucination_cli :: "string \<Rightarrow> bool" where
  "is_hallucination_cli text =
     (let lower_text = map tolower text;
          is_hallucination = list_ex (\<lambda>halluc. str_find lower_text halluc \<noteq> None) hallucinations_cli
      in
      if \<not> is_hallucination then
        let trimmed = filter (\<lambda>c. \<not> is_punct_or_space c) lower_text in
        list_ex (\<lambda>standalone. trimmed = standalone) standalone_hallucinations
      else is_hallucination)"

subsection \<open>\<open>transcribeWithWhisper\<close> of \<open>main.cpp\<close> (Whisper C API)\<close>

text \<open>
  One call of \<open>whisper_full\<close>: its return value and the texts that
  \<open>whisper_full_get_segment_text\<close> then yields for the segments \<open>0 .. n_segments - 1\<close>
  (\<open>None\<close> for a null pointer). The constructor throws when \<open>whisper_ctx\<close> is null, so the
  first test of the function, \<open>if (!whisper_ctx)\<close>, is false in every object that exists.
\<close>

record whisper_run =
  full_ret :: int
  segment_texts :: "string option list"

text \<open>\<open>if (!result.empty()) result += " "; result += segment_text;\<close>\<close>

definition append_text :: "string \<Rightarrow> string \<Rightarrow> string" where
  "append_text result t = (if result \<noteq> [] then result @ '' '' else result) @ t"

text \<open>The body of the loop over the segments.\<close>

definition add_segment :: "string option \<Rightarrow> string \<Rightarrow> string" where
  "add_segment text result =
     (case text of
        None \<Rightarrow> result
      | Some t \<Rightarrow>
          if t = [] then result
          else
            (case find_first_not_of t whitespace of
               None \<Rightarrow> result
             | Some start \<Rightarrow>
                 let segment_text =
                       (case find_last_not_of t whitespace of
                          Some end' \<Rightarrow> substr t start (end' - start + 1)
                        | None \<Rightarrow> drop start t)
                 in if \<not> isHallucination segment_text then append_text result segment_text
                    else result))"

definition transcribeWithWhisper_capi :: "whisper_run \<Rightarrow> string" where
  "transcribeWithWhisper_capi run =
     (if full_ret run \<noteq> 0 then [] else fold add_segment (segment_texts run) [])"

subsection \<open>\<open>transcribeWithWhisper\<close> of \<open>whisper_streaming_transcriber.cpp\<close> (whisper-cli)\<close>

text \<open>
  The function is modelled as its \<open>_WIN32\<close> branch, the one that runs \<open>whisper-cli.exe\<close>
  through \<open>CreatePipe\<close> and \<open>CreateProcessA\<close>. One invocation ends in one of three ways:
  \<open>CreatePipe\<close> fails (with the error code of \<open>GetLastError\<close>), \<open>CreateProcessA\<close> fails, or
  the child runs, writes bytes to the pipe (standard output and standard error together) and
  exits with a code, which the function reads and does not test. The bytes reach the function
  in the blocks that the successive calls of \<open>ReadFile\<close> deliver, each of at most 2047 bytes
  (the size of \<open>buf\<close> less one); what a block is depends on when the child writes. The
  \<open>#else\<close> branch, which reads the output of \<open>_popen\<close>, is not modelled.
\<close>

datatype process_result =
    CreatePipeFailed nat
  | CreateProcessFailed nat
  | ProcessExited "string list" nat

definition noise_prefixes :: "string list" where
  "noise_prefixes =
     [''system_info:'', ''whisper_print_timings:'', ''main:'', ''ggml:'', ''whisper:'',
      ''memcpy('', ''AVX'',
      ''whisper_init_'', ''whisper_model_'', ''whisper_backend_'', ''whisper_full_'',
      ''load time'', ''fallbacks'', ''mel time'', ''sample time'', ''encode time'', ''decode time'',
      ''batchd time'', ''prompt time'', ''total time'', ''auto-detected language:'',
      ''processing '' @ [CHR 0x27], ''threads'', ''processors'', ''beams'', ''lang ='', ''task ='',
      ''timestamps ='',
      ''ggml_cuda_init:'', ''Device 0:'', ''compute capability'', ''VMM:'', ''GGML_CUDA_FORCE'',
      ''whisper_init_from_file'', ''use gpu'', ''flash attn'', ''gpu_device'', ''dtw'', ''devices'',
      ''backends'', ''whisper_model_load:'', ''n_vocab'', ''n_audio'', ''n_text'', ''n_mels'',
      ''ftype'',
      ''qntvr'', ''type'', ''adding'', ''extra tokens'', ''n_langs'', ''CUDA0 total size'',
      ''model size'', ''whisper_backend_init_gpu:'', ''using CUDA'', ''whisper_init_state:'',
      ''kv self size'', ''kv cross size'', ''kv pad size'', ''compute buffer'', ''WHISPER :'',
      ''CPU :'', ''SSE3'', ''SSSE3'', ''AVX'', ''FMA'', ''AVX512'', ''OPENMP'', ''REPACK'']"

text \<open>
  The \<open>handle_line\<close> lambda: a line \<open>[timestamps] text\<close> contributes its text unless the filter
  takes it for a hallucination; any other line contributes itself unless it starts with one of
  the noise prefixes (\<open>line.rfind(p, 0) == 0\<close>).
\<close>

definition handle_line :: "string \<Rightarrow> string \<Rightarrow> string" where
  "handle_line line0 result =
     (let line = trim line0 in
      if line = [] then result
      else
        (case (if length line > 1 \<and> line ! 0 = CHR ''[''
               then (case str_find line '']'' of
                       Some rb \<Rightarrow> if rb + 1 < length line then Some rb else None
                     | None \<Rightarrow> None)
               else None) of
           Some rb \<Rightarrow>
             let after = trim (drop (rb + 1) line) in
             if after \<noteq> [] then
               (if is_hallucination_cli after then result else append_text result after)
             else result
         | None \<Rightarrow>
             if list_ex (\<lambda>p. prefix p line) noise_prefixes then result
             else append_text result line))"

text \<open>
  The inner loop of the read loop: \<open>carry\<close> is cut at every line feed, each piece goes through
  \<open>handle_line\<close>, and what is left after the last line feed is the new \<open>carry\<close>. \<open>line\<close>
  is the piece being read.
\<close>

fun split_lines :: "string \<Rightarrow> string \<Rightarrow> string \<Rightarrow> string \<times> string" where
  "split_lines [] line result = (line, result)"
| "split_lines (c # cs) line result =
     (if c = CHR 0x0A then split_lines cs [] (handle_line line result)
      else split_lines cs (line @ [c]) result)"

text \<open>
  \<open>carry.append(buf)\<close> appends the block as a C string, the bytes before its first zero byte.
\<close>

definition c_str :: "string \<Rightarrow> string" where
  "c_str buf = takeWhile (\<lambda>c. c \<noteq> CHR 0x00) buf"

text \<open>
  The read loop: every block is appended to \<open>carry\<close>, which is then cut into lines; a read of
  no bytes ends the loop, as does the end of the output, and what is left in \<open>carry\<close> goes
  through \<open>handle_line\<close> when it is not empty.
\<close>

fun read_loop :: "string list \<Rightarrow> string \<Rightarrow> string \<Rightarrow> string" where
  "read_loop [] carry result = (if carry \<noteq> [] then handle_line carry result else result)"
| "read_loop (buf # blocks) carry result =
     (if buf = [] then (if carry \<noteq> [] then handle_line carry result else result)
      else
        (case split_lines (carry @ c_str buf) [] result of
           (carry', result') \<Rightarrow> read_loop blocks carry' result'))"

text \<open>The final trim strips blanks only.\<close>

definition final_trim :: "string \<Rightarrow> string" where
  "final_trim result =
     (if result \<noteq> [] then
        (case find_first_not_of result '' '' of
           None \<Rightarrow> []
         | Some start \<Rightarrow>
             (case find_last_not_of result '' '' of
                Some end' \<Rightarrow> substr result start (end' - start + 1)
              | None \<Rightarrow> drop start result))
      else result)"

definition transcribeWithWhisper_cli :: "process_result \<Rightarrow> string" where
  "transcribeWithWhisper_cli outcome =
     (case outcome of
        CreatePipeFailed err \<Rightarrow> ''[CreatePipe failed]''
      | CreateProcessFailed err \<Rightarrow> ''[CreateProcess failed: '' @ to_string err @ '']''
      | ProcessExited blocks exit_code \<Rightarrow> final_trim (read_loop blocks [] []))"

subsection \<open>The two variants\<close>

text \<open>
  A variant is a source file together with its recognition engine: a function from the number
  of the invocation (counted from 0 over the life of the object) and the audio handed over to
  the raw outcome. Taking the number of the invocation as an argument lets the engine answer
  the same audio differently at different times.
\<close>

datatype engine =
    CApi "nat \<Rightarrow> sample list \<Rightarrow> whisper_run"
  | Cli "nat \<Rightarrow> sample list \<Rightarrow> process_result"

definition transcribeWithWhisper :: "engine \<Rightarrow> nat \<Rightarrow> sample list \<Rightarrow> string" where
  "transcribeWithWhisper eng k audio_chunk =
     (case eng of
        CApi run \<Rightarrow> transcribeWithWhisper_capi (run k audio_chunk)
      | Cli spawn \<Rightarrow> transcribeWithWhisper_cli (spawn k audio_chunk))"

text \<open>
  The overlap kept in the buffer after a chunk: for a chunk the gate rejected, for the first
  chunk handed to the engine, and for every later one. \<open>main.cpp\<close> divides the chunk size by
  8, 32 and 64, \<open>whisper_streaming_transcriber.cpp\<close> by 4, 16 and 32.
\<close>

fun skipped_overlap :: "engine \<Rightarrow> nat" where
  "skipped_overlap (CApi run) = TRANSCRIPTION_CHUNK_SIZE div 8"
| "skipped_overlap (Cli spawn) = TRANSCRIPTION_CHUNK_SIZE div 4"

fun first_overlap :: "engine \<Rightarrow> nat" where
  "first_overlap (CApi run) = TRANSCRIPTION_CHUNK_SIZE div 32"
| "first_overlap (Cli spawn) = TRANSCRIPTION_CHUNK_SIZE div 16"

fun later_overlap :: "engine \<Rightarrow> nat" where
  "later_overlap (CApi run) = TRANSCRIPTION_CHUNK_SIZE div 64"
| "later_overlap (Cli spawn) = TRANSCRIPTION_CHUNK_SIZE div 32"

text \<open>
  What \<open>processAudioChunk\<close> does with a non-empty text: \<open>main.cpp\<close> takes it as it is (its
  \<open>transcribeWithWhisper\<close> has filtered every segment), the other file runs the filter on it.
\<close>

fun text_accepted :: "engine \<Rightarrow> string \<Rightarrow> bool" where
  "text_accepted (CApi run) transcribed_text = True"
| "text_accepted (Cli spawn) transcribed_text = (\<not> is_hallucination_cli transcribed_text)"

subsection \<open>The session\<close>

text \<open>
  What the object does beyond changing its members is recorded in a history, oldest entry first:
  every chunk taken from the buffer (with the overlap kept, and whether the gate let it through
  to the engine), the final pass of the whole buffer through the engine, and the report of the
  complete transcription (the clean text, the number of recorded samples, from which the
  duration is printed, and the word count).
\<close>

datatype event =
    ChunkSkipped "sample list" nat
  | ChunkTranscribed "sample list" nat
  | FinalPass "sample list"
  | Complete string int nat

text \<open>
  The counters are C++ \<open>int\<close>s, modelled as unbounded integers. \<open>silence_counter\<close> stays
  within \<open>0 .. 30\<close> (\<open>silence_counter_bounded\<close> below). \<open>speech_counter\<close>, \<open>chunk_count\<close> and
  \<open>recorded_samples\<close> grow with the length of one cycle and are reset at the next trigger;
  they would leave the range of an \<open>int\<close> only after \<open>2 ^ 31\<close> frames, chunks or samples of
  one cycle.
\<close>

record transcriber =
  audio_buffer :: "sample list"
  is_listening :: bool
  silence_counter :: int
  speech_counter :: int
  current_transcription :: string
  transcription_started :: bool
  chunk_count :: int
  recorded_samples :: int
  invocations :: nat
  history :: "event list"

text \<open>The members as the class initialises them.\<close>

definition initial :: transcriber where
  "initial =
     \<lparr>audio_buffer = [], is_listening = False, silence_counter = 0, speech_counter = 0,
      current_transcription = [], transcription_started = False, chunk_count = 0,
      recorded_samples = 0, invocations = 0, history = []\<rparr>"

definition processAudioChunk :: "engine \<Rightarrow> transcriber \<Rightarrow> transcriber" where
  "processAudioChunk eng s =
     (if length (audio_buffer s) \<ge> TRANSCRIPTION_CHUNK_SIZE then
        let chunk = take TRANSCRIPTION_CHUNK_SIZE (audio_buffer s) in
        if \<not> hasSubstantialSpeech chunk then
          let overlap = skipped_overlap eng in
          s\<lparr>audio_buffer := drop (TRANSCRIPTION_CHUNK_SIZE - overlap) (audio_buffer s),
            history := history s @ [ChunkSkipped chunk overlap]\<rparr>
        else
          let transcribed_text = transcribeWithWhisper eng (invocations s) chunk;
              s1 = s\<lparr>invocations := invocations s + 1\<rparr>;
              s2 = (if transcribed_text \<noteq> [] \<and> text_accepted eng transcribed_text
                    then s1\<lparr>transcription_started := True,
                            current_transcription :=
                              current_transcription s1 @ transcribed_text @ '' ''\<rparr>
                    else s1);
              s3 = s2\<lparr>chunk_count := chunk_count s2 + 1\<rparr>;
              overlap = (if chunk_count s3 = 1 then first_overlap eng else later_overlap eng)
          in s3\<lparr>audio_buffer := drop (TRANSCRIPTION_CHUNK_SIZE - overlap) (audio_buffer s3),
                history := history s3 @ [ChunkTranscribed chunk overlap]\<rparr>
      else s)"

text \<open>
  The clean-up of the transcription: the loop that replaces two blanks by one, searching on
  from the position of the replacement, and the two \<open>erase\<close> calls that trim blanks. \<open>npos\<close>
  from \<open>find_first_not_of\<close> erases everything; \<open>npos + 1\<close> from \<open>find_last_not_of\<close> wraps to
  0 and erases everything too.
\<close>

lemma str_find_bound:
  "str_find s needle = Some i \<Longrightarrow> i + length needle \<le> length s"
proof (induction s arbitrary: i)
  case Nil
  then show ?case by (simp split: if_splits)
next
  case (Cons c cs)
  show ?case
  proof (cases "prefix needle (c # cs)")
    case True
    then show ?thesis using Cons.prems prefix_length_le [OF True] by simp
  next
    case False
    then obtain j where "str_find cs needle = Some j" and "i = Suc j"
      using Cons.prems by auto
    then show ?thesis using Cons.IH [of j] by simp
  qed
qed

function collapse_spaces :: "nat \<Rightarrow> string \<Rightarrow> string" where
  "collapse_spaces pos s =
     (case find_at s ''  '' pos of
        None \<Rightarrow> s
      | Some p \<Rightarrow> collapse_spaces p (take p s @ '' '' @ drop (p + 2) s))"
  by pat_completeness auto
termination
proof (relation "measure (\<lambda>(pos, s). length s)")
  show "wf (measure (\<lambda>(pos, s). length s))"
    by simp
next
  fix pos :: nat and s :: string and p :: nat
  assume "find_at s ''  '' pos = Some p"
  then obtain i where "str_find (drop pos s) ''  '' = Some i" and "p = pos + i" and "pos \<le> length s"
    by (auto simp add: find_at_def split: if_splits)
  then have "p + 2 \<le> length s"
    using str_find_bound [of "drop pos s" "''  ''" i] by simp
  then show "((p, take p s @ '' '' @ drop (p + 2) s), (pos, s)) \<in> measure (\<lambda>(pos, s). length s)"
    by simp
qed

definition clean_up :: "string \<Rightarrow> string" where
  "clean_up current =
     (let t1 = collapse_spaces 0 current;
          t2 = (case find_first_not_of t1 '' '' of None \<Rightarrow> [] | Some i \<Rightarrow> drop i t1);
          t3 = (case find_last_not_of t2 '' '' of None \<Rightarrow> [] | Some j \<Rightarrow> take (j + 1) t2)
      in t3)"

definition finalizeTranscription :: "engine \<Rightarrow> transcriber \<Rightarrow> transcriber" where
  "finalizeTranscription eng s =
     (let s1 =
            (if audio_buffer s \<noteq> [] \<and> transcription_started s \<and> length (audio_buffer s) \<ge> 8000
             then
               (if length (audio_buffer s) \<ge> TRANSCRIPTION_CHUNK_SIZE div 2 then
                  let final_text = transcribeWithWhisper eng (invocations s) (audio_buffer s);
                      s' = s\<lparr>invocations := invocations s + 1,
                             history := history s @ [FinalPass (audio_buffer s)]\<rparr>
                  in if final_text \<noteq> []
                     then s'\<lparr>current_transcription := current_transcription s' @ final_text\<rparr>
                     else s'
                else s)
             else s);
          s2 =
            (if transcription_started s1 then
               let clean_text = clean_up (current_transcription s1) in
               s1\<lparr>history := history s1 @
                     [Complete clean_text (recorded_samples s1)
                        (count_list clean_text CHR '' '' + 1)]\<rparr>
             else s1)
      in s2\<lparr>audio_buffer := [], current_transcription := [], transcription_started := False,
            recorded_samples := 0\<rparr>)"

text \<open>
  One turn of the loop of \<open>startStreaming\<close>. \<open>audio_in->read\<close> delivers the samples of the
  frame; while idle the frame goes to the hotword detector, whose result is
  \<open>detection_result\<close>, and while listening to the voice-activity detector, whose result is
  \<open>vad_result\<close> (\<open>-2\<close> is silence). \<open>loop_count\<close> only paces the dots printed while idle and
  is left out.
\<close>

record frame =
  samples :: "sample list"
  detection_result :: int
  vad_result :: int

definition hotword_detected :: "transcriber \<Rightarrow> transcriber" where
  "hotword_detected s =
     s\<lparr>is_listening := True, audio_buffer := [], silence_counter := 0, speech_counter := 0,
       current_transcription := [], transcription_started := False, recorded_samples := 0,
       chunk_count := 0\<rparr>"

text \<open>
  The first half of the listening branch: the frame is appended, the voice-activity verdict
  updates the counters, and chunks are taken from the buffer.
\<close>

definition listening_frame_chunks :: "engine \<Rightarrow> transcriber \<Rightarrow> frame \<Rightarrow> transcriber" where
  "listening_frame_chunks eng s f =
     (let s1 = s\<lparr>audio_buffer := audio_buffer s @ samples f,
                 recorded_samples := recorded_samples s + int (length (samples f))\<rparr>;
          s2 = (if vad_result f = - 2 then s1\<lparr>silence_counter := silence_counter s1 + 1\<rparr>
                else
                  let s1' = s1\<lparr>silence_counter := 0, speech_counter := speech_counter s1 + 1\<rparr>
                  in if speech_counter s1' > MIN_SPEECH_LENGTH div 2048
                     then processAudioChunk eng s1' else s1');
          s3 = (if length (audio_buffer s2) \<ge> TRANSCRIPTION_CHUNK_SIZE
                then processAudioChunk eng s2 else s2)
      in s3)"

text \<open>
  The second half: the silence threshold and the safety cut-off, each of which finalises the
  transcription and leaves the listening state.
\<close>

definition listening_frame :: "engine \<Rightarrow> transcriber \<Rightarrow> frame \<Rightarrow> transcriber" where
  "listening_frame eng s f =
     (let s3 = listening_frame_chunks eng s f;
          s4 = (if silence_counter s3 \<ge> SILENCE_THRESHOLD
                then (finalizeTranscription eng s3)\<lparr>is_listening := False\<rparr> else s3);
          s5 = (if length (audio_buffer s4) > 16000 * 60
                then (finalizeTranscription eng s4)\<lparr>is_listening := False\<rparr> else s4)
      in s5)"

definition startStreaming_step :: "engine \<Rightarrow> transcriber \<Rightarrow> frame \<Rightarrow> transcriber" where
  "startStreaming_step eng s f =
     (if \<not> is_listening s then
        (if detection_result f > 0 then hotword_detected s else s)
      else listening_frame eng s f)"

text \<open>The loop over the frames that the audio source delivers.\<close>

definition startStreaming :: "engine \<Rightarrow> transcriber \<Rightarrow> frame list \<Rightarrow> transcriber" where
  "startStreaming eng s fs = foldl (startStreaming_step eng) s fs"

text \<open>
  A sequence of frames is fed within one cycle when the object is listening before each of them
  and still listening after the last.
\<close>

fun within_cycle :: "engine \<Rightarrow> transcriber \<Rightarrow> frame list \<Rightarrow> bool" where
  "within_cycle eng s [] = is_listening s"
| "within_cycle eng s (f # fs) =
     (is_listening s \<and> within_cycle eng (startStreaming_step eng s f) fs)"

subsection \<open>Concrete inputs for the examples\<close>

text \<open>
  Two engines of the C API variant, one that recognises nothing and one that answers every chunk
  with the segment "hello", and an engine of the command-line variant whose every
  \<open>CreateProcessA\<close> fails with error 2 (file not found).
\<close>

definition quiet_engine :: engine where
  "quiet_engine = CApi (\<lambda>k audio. \<lparr>full_ret = 0, segment_texts = []\<rparr>)"

definition hello_engine :: engine where
  "hello_engine = CApi (\<lambda>k audio. \<lparr>full_ret = 0, segment_texts = [Some ''hello'']\<rparr>)"

definition broken_cli :: engine where
  "broken_cli = Cli (\<lambda>k audio. CreateProcessFailed 2)"

text \<open>
  Frames: the one on which the hotword detector fires, a frame of \<open>n\<close> samples of value
  \<open>x\<close> that the voice-activity detector takes for speech, and a frame of \<open>n\<close> zero samples
  that it takes for silence.
\<close>

definition trigger_frame :: frame where
  "trigger_frame = \<lparr>samples = replicate 1600 0, detection_result = 1, vad_result = 0\<rparr>"

definition speech_frame :: "nat \<Rightarrow> sample \<Rightarrow> frame" where
  "speech_frame n x = \<lparr>samples = replicate n x, detection_result = 0, vad_result = 0\<rparr>"

definition silence_frame :: "nat \<Rightarrow> frame" where
  "silence_frame n = \<lparr>samples = replicate n 0, detection_result = 0, vad_result = - 2\<rparr>"


text \<open>A line of \<open>whisper-cli\<close> that carries one segment.\<close>

definition segment_line :: "string \<Rightarrow> string" where
  "segment_line t = ''[00:00:00.000 --> 00:00:03.000]   '' @ t @ [CHR 0x0A]"

text \<open>
  Three seconds of audio in frames of one second, loud up to the last 1500 samples, which are
  silent, and then two seconds of silence; a third second of silence.
\<close>

definition loud_then_quiet :: "frame list" where
  "loud_then_quiet =
     [speech_frame 16000 1000, speech_frame 16000 1000,
      \<lparr>samples = replicate 14500 1000 @ replicate 1500 0, detection_result = 0, vad_result = 0\<rparr>,
      silence_frame 16000, silence_frame 16000]"

text \<open>Five and six seconds of loud audio in frames of one second.\<close>

definition five_loud_frames :: "frame list" where
  "five_loud_frames =
     [speech_frame 16000 1000, speech_frame 16000 1000, speech_frame 16000 1000,
      speech_frame 16000 1000, speech_frame 16000 1000]"

definition six_loud_frames :: "frame list" where
  "six_loud_frames = five_loud_frames @ [speech_frame 16000 1000]"

text \<open>An engine of the command-line variant whose child process writes nothing and exits with 0.\<close>

definition silent_cli :: engine where
  "silent_cli = Cli (\<lambda>k audio. ProcessExited [] 0)"

subsection \<open>Reading the history\<close>

text \<open>
  The part of a chunk that is removed from the buffer when the chunk is taken: all of it but
  the overlap. The distinct portions of the chunks of a history, in the order of the history.
\<close>

fun distinct_portions :: "event list \<Rightarrow> sample list" where
  "distinct_portions [] = []"
| "distinct_portions (ChunkSkipped chunk overlap # es) =
     take (TRANSCRIPTION_CHUNK_SIZE - overlap) chunk @ distinct_portions es"
| "distinct_portions (ChunkTranscribed chunk overlap # es) =
     take (TRANSCRIPTION_CHUNK_SIZE - overlap) chunk @ distinct_portions es"
| "distinct_portions (e # es) = distinct_portions es"

text \<open>
  Replaying the chunks of a history on a stream of samples, from its front: each chunk must be the
  first \<open>TRANSCRIPTION_CHUNK_SIZE\<close> samples of what is left of the stream, and taking it
  leaves the stream without the distinct portion of the chunk, so that the overlap is the front
  of what the next chunk is taken from. The result is what is left at the end, or \<open>None\<close> when
  a chunk of the history is not the front of what was left.
\<close>

fun extract_in_order :: "sample list \<Rightarrow> event list \<Rightarrow> sample list option" where
  "extract_in_order stream [] = Some stream"
| "extract_in_order stream (ChunkSkipped chunk overlap # es) =
     (if TRANSCRIPTION_CHUNK_SIZE \<le> length stream \<and> chunk = take TRANSCRIPTION_CHUNK_SIZE stream
      then extract_in_order (drop (TRANSCRIPTION_CHUNK_SIZE - overlap) stream) es else None)"
| "extract_in_order stream (ChunkTranscribed chunk overlap # es) =
     (if TRANSCRIPTION_CHUNK_SIZE \<le> length stream \<and> chunk = take TRANSCRIPTION_CHUNK_SIZE stream
      then extract_in_order (drop (TRANSCRIPTION_CHUNK_SIZE - overlap) stream) es else None)"
| "extract_in_order stream (e # es) = extract_in_order stream es"

text \<open>The entries that the object has added to the history of \<open>s\<close> by the time it is \<open>s'\<close>.\<close>

definition events_since :: "transcriber \<Rightarrow> transcriber \<Rightarrow> event list" where
  "events_since s s' = drop (length (history s)) (history s')"

text \<open>The overlaps kept after the chunks of a history, in the order of the history.\<close>

fun overlaps :: "event list \<Rightarrow> nat list" where
  "overlaps [] = []"
| "overlaps (ChunkSkipped chunk overlap # es) = overlap # overlaps es"
| "overlaps (ChunkTranscribed chunk overlap # es) = overlap # overlaps es"
| "overlaps (e # es) = overlaps es"

text \<open>The overlaps kept after the chunks that went to the recognition engine.\<close>

fun transcribed_overlaps :: "event list \<Rightarrow> nat list" where
  "transcribed_overlaps [] = []"
| "transcribed_overlaps (ChunkTranscribed chunk overlap # es) = overlap # transcribed_overlaps es"
| "transcribed_overlaps (e # es) = transcribed_overlaps es"

text \<open>The overlaps kept after the chunks that the gate rejected.\<close>

fun skipped_overlaps :: "event list \<Rightarrow> nat list" where
  "skipped_overlaps [] = []"
| "skipped_overlaps (ChunkSkipped chunk overlap # es) = overlap # skipped_overlaps es"
| "skipped_overlaps (e # es) = skipped_overlaps es"

text \<open>A list of numbers that never grows from one entry to a later one.\<close>

definition never_grows :: "nat list \<Rightarrow> bool" where
  "never_grows xs = sorted_wrt (\<lambda>a b. b \<le> a) xs"

text \<open>
  The overlap kept after the chunk that goes to the recognition engine as number \<open>i\<close> of its
  cycle, counted from 0: \<open>processAudioChunk\<close> increments \<open>chunk_count\<close> and then tests
  \<open>chunk_count == 1\<close>.
\<close>

definition chunk_overlap :: "engine \<Rightarrow> nat \<Rightarrow> nat" where
  "chunk_overlap eng i = (if i = 0 then first_overlap eng else later_overlap eng)"

text \<open>
  The chunks of a stretch of history keep the overlaps that \<open>processAudioChunk\<close> gives when
  \<open>chunk_count\<close> is \<open>c\<close> at the start of the stretch: the chunks that went to the engine the
  overlaps of the numbers \<open>c\<close>, \<open>c + 1\<close>, ..., the rejected chunks the overlap of rejected
  chunks.
\<close>

definition overlaps_as_counted :: "engine \<Rightarrow> int \<Rightarrow> event list \<Rightarrow> bool" where
  "overlaps_as_counted eng c new =
     (transcribed_overlaps new
        = map (chunk_overlap eng) [nat c ..< nat c + length (transcribed_overlaps new)]
      \<and> list_all (\<lambda>overlap. overlap = skipped_overlap eng) (skipped_overlaps new))"

subsection \<open>The accumulators of the speech gate\<close>

lemma fold_sum_squares:
  "fold (\<lambda>sample acc. acc + sint sample * sint sample) xs a
     = a + (\<Sum>x\<leftarrow>xs. sint x * sint x)"
  by (induction xs arbitrary: a) simp_all

lemma fold_speech_samples:
  "fold (\<lambda>sample n. if \<bar>sint sample\<bar> > t then n + 1 else n) xs (a::int)
     = a + int (length (filter (\<lambda>x. \<bar>sint x\<bar> > t) xs))"
  by (induction xs arbitrary: a) simp_all

lemma sum_squares_sum_list:
  "sum_squares xs = (\<Sum>x\<leftarrow>xs. sint x * sint x)"
  by (simp add: sum_squares_def fold_sum_squares)

lemma speech_samples_filter:
  "speech_samples xs = int (length (filter (\<lambda>x. \<bar>sint x\<bar> > 200) xs))"
  by (simp add: speech_samples_def SPEECH_THRESHOLD_def fold_speech_samples)

lemma sample_square_bounds:
  fixes x :: sample
  shows "0 \<le> sint x * sint x" and "sint x * sint x \<le> 2 ^ 30"
proof -
  have lo: "- (2 ^ 15) \<le> sint x" and hi: "sint x < 2 ^ 15"
    using sint_ge [of x] sint_lt [of x] by simp_all
  show "0 \<le> sint x * sint x" by simp
  have "\<bar>sint x\<bar> \<le> 2 ^ 15" using lo hi by simp
  then have "\<bar>sint x\<bar> * \<bar>sint x\<bar> \<le> 2 ^ 15 * 2 ^ 15"
    by (intro mult_mono) simp_all
  then show "sint x * sint x \<le> 2 ^ 30" by simp
qed

text \<open>No overflow: a \<open>long long\<close> holds the sum for every chunk shorter than \<open>2 ^ 33\<close>.\<close>

lemma sum_squares_bounds:
  "0 \<le> sum_squares xs \<and> sum_squares xs \<le> 2 ^ 30 * int (length xs)"
proof (induction xs)
  case Nil
  show ?case by (simp add: sum_squares_sum_list)
next
  case (Cons x xs)
  show ?case
    using Cons sample_square_bounds [of x]
    by (simp add: sum_squares_sum_list algebra_simps)
qed

lemma speech_samples_bounds:
  "0 \<le> speech_samples xs \<and> speech_samples xs \<le> int (length xs)"
  by (simp add: speech_samples_filter)

subsection \<open>Rounding\<close>

lemma rne_of_int [simp]: "rne (real_of_int k) = k"
  by (simp add: rne_def)

lemma rne_ge: "real_of_int k \<le> y \<Longrightarrow> k \<le> rne y"
proof -
  assume "real_of_int k \<le> y"
  then have "k \<le> \<lfloor>y\<rfloor>" by (simp add: le_floor_iff)
  then show ?thesis by (simp add: rne_def Let_def)
qed

lemma rne_le_half: "y < real_of_int k + 1 / 2 \<Longrightarrow> rne y \<le> k"
proof -
  assume a: "y < real_of_int k + 1 / 2"
  then have "y < real_of_int (k + 1)" by simp
  then have f: "\<lfloor>y\<rfloor> \<le> k" using floor_less_iff [of y "k + 1"] by simp
  show ?thesis
  proof (cases "\<lfloor>y\<rfloor> = k")
    case True
    then have "y - real_of_int \<lfloor>y\<rfloor> < 1 / 2" using a by simp
    then show ?thesis using True by (simp add: rne_def Let_def)
  next
    case False
    then have "\<lfloor>y\<rfloor> + 1 \<le> k" using f by simp
    then show ?thesis by (simp add: rne_def Let_def)
  qed
qed

lemma rne_le: "y \<le> real_of_int k \<Longrightarrow> rne y \<le> k"
  by (rule rne_le_half) simp

lemma rne_ge_half: "real_of_int k - 1 / 2 < y \<Longrightarrow> k \<le> rne y"
proof -
  assume a: "real_of_int k - 1 / 2 < y"
  then have "real_of_int (k - 1) \<le> y" by simp
  then have f: "k - 1 \<le> \<lfloor>y\<rfloor>" by (simp only: le_floor_iff)
  show ?thesis
  proof (cases "\<lfloor>y\<rfloor> = k - 1")
    case True
    then have "1 / 2 < y - real_of_int \<lfloor>y\<rfloor>" using a by simp
    then show ?thesis using True by (simp add: rne_def Let_def)
  next
    case False
    then have "k \<le> \<lfloor>y\<rfloor>" using f by simp
    then show ?thesis by (simp add: rne_def Let_def)
  qed
qed

lemma round_real_binade:
  assumes "2 powr real_of_int e \<le> x" and "x < 2 powr real_of_int (e + 1)" and "- 1022 \<le> e"
  shows "round_real x
           = real_of_int (rne (x / 2 powr real_of_int (e - 52))) * 2 powr real_of_int (e - 52)"
proof -
  have pos: "0 < x"
    by (rule less_le_trans [OF _ assms(1)]) simp
  have "\<lfloor>log 2 x\<rfloor> = e"
    using floor_log_eq_powr_iff [of x 2 e] assms(1,2) pos by simp
  then show ?thesis
    using pos assms(3) by (simp add: round_real_def Let_def max_def)
qed

lemma binade_exists:
  assumes "0 < x"
  shows "2 powr real_of_int \<lfloor>log 2 x\<rfloor> \<le> x \<and> x < 2 powr real_of_int (\<lfloor>log 2 x\<rfloor> + 1)"
  using floor_log_eq_powr_iff [of x 2 "\<lfloor>log 2 x\<rfloor>"] assms by simp

lemma pow2_le_iff: "2 powr real_of_int a \<le> 2 powr real_of_int b \<longleftrightarrow> a \<le> b"
  by simp

lemma pow2_less_iff: "2 powr real_of_int a < 2 powr real_of_int b \<longleftrightarrow> a < b"
  by simp

lemma pow2_split: "2 powr real_of_int e = 2 ^ 52 * 2 powr real_of_int (e - 52)"
proof -
  have "2 powr real_of_int e = 2 powr (52 + real_of_int (e - 52))" by simp
  also have "\<dots> = 2 powr 52 * 2 powr real_of_int (e - 52)" by (rule powr_add)
  finally show ?thesis by simp
qed

lemma pow2_split': "2 powr real_of_int (e + 1) = 2 ^ 53 * 2 powr real_of_int (e - 52)"
proof -
  have "2 powr real_of_int (e + 1) = 2 powr (53 + real_of_int (e - 52))"
    by (simp add: add.commute)
  also have "\<dots> = 2 powr 53 * 2 powr real_of_int (e - 52)" by (rule powr_add)
  finally show ?thesis by simp
qed

lemma round_real_ge_pow2:
  assumes "2 powr real_of_int j \<le> x" and "- 1022 \<le> j"
  shows "2 powr real_of_int j \<le> round_real x"
proof -
  have pos: "0 < x"
    by (rule less_le_trans [OF _ assms(1)]) simp
  define e where "e = \<lfloor>log 2 x\<rfloor>"
  have b: "2 powr real_of_int e \<le> x" "x < 2 powr real_of_int (e + 1)"
    using binade_exists [OF pos] by (simp_all add: e_def)
  have "2 powr real_of_int j < 2 powr real_of_int (e + 1)"
    by (rule le_less_trans [OF assms(1) b(2)])
  then have je: "j \<le> e"
    unfolding pow2_less_iff by simp
  define u where "u = 2 powr real_of_int (e - 52)"
  have u: "0 < u" by (simp add: u_def)
  have r: "round_real x = real_of_int (rne (x / u)) * u"
    unfolding u_def using b je assms(2) by (intro round_real_binade) simp_all
  have "2 ^ 52 * u \<le> x"
    using b(1) pow2_split [of e] by (simp add: u_def)
  then have "real_of_int (2 ^ 52) \<le> x / u"
    using u by (simp add: pos_le_divide_eq)
  then have "2 ^ 52 \<le> rne (x / u)"
    by (rule rne_ge)
  then have "real_of_int (2 ^ 52) \<le> real_of_int (rne (x / u))"
    by (simp only: of_int_le_iff)
  then have "2 ^ 52 * u \<le> round_real x"
    unfolding r using u by simp
  then have "2 powr real_of_int e \<le> round_real x"
    using pow2_split [of e] by (simp add: u_def)
  moreover have "2 powr real_of_int j \<le> 2 powr real_of_int e"
    using je by simp
  ultimately show ?thesis by (rule order_trans [rotated])
qed

lemma round_real_le_pow2:
  assumes "2 powr (- 1022) \<le> x" and "x \<le> 2 powr real_of_int j"
  shows "round_real x \<le> 2 powr real_of_int j"
proof -
  have pos: "0 < x"
    by (rule less_le_trans [OF _ assms(1)]) simp
  define e where "e = \<lfloor>log 2 x\<rfloor>"
  have b: "2 powr real_of_int e \<le> x" "x < 2 powr real_of_int (e + 1)"
    using binade_exists [OF pos] by (simp_all add: e_def)
  have "2 powr real_of_int (- 1022) \<le> x"
    using assms(1) by simp
  then have "2 powr real_of_int (- 1022) < 2 powr real_of_int (e + 1)"
    using b(2) by (rule le_less_trans)
  then have lo: "- 1022 \<le> e"
    unfolding pow2_less_iff by simp
  have "2 powr real_of_int e \<le> 2 powr real_of_int j"
    by (rule order_trans [OF b(1) assms(2)])
  then have ej: "e \<le> j"
    unfolding pow2_le_iff .
  define u where "u = 2 powr real_of_int (e - 52)"
  have u: "0 < u" by (simp add: u_def)
  have r: "round_real x = real_of_int (rne (x / u)) * u"
    unfolding u_def using b lo by (intro round_real_binade) simp_all
  show ?thesis
  proof (cases "e = j")
    case True
    then have "x = 2 powr real_of_int e"
      using assms(2) b(1) by simp
    then have "x / u = real_of_int (2 ^ 52)"
      using pow2_split [of e] u by (simp add: u_def)
    then have "round_real x = 2 ^ 52 * u"
      unfolding r by (simp only: rne_of_int) simp
    then show ?thesis
      using pow2_split [of e] True by (simp add: u_def)
  next
    case False
    then have e1: "e + 1 \<le> j" using ej by simp
    have "x < 2 ^ 53 * u"
      using b(2) pow2_split' [of e] by (simp add: u_def)
    then have "x / u \<le> real_of_int (2 ^ 53)"
      using u by (simp add: pos_divide_le_eq)
    then have "rne (x / u) \<le> 2 ^ 53"
      by (rule rne_le)
    then have "real_of_int (rne (x / u)) \<le> real_of_int (2 ^ 53)"
      by (simp only: of_int_le_iff)
    then have "round_real x \<le> 2 ^ 53 * u"
      unfolding r using u by simp
    then have "round_real x \<le> 2 powr real_of_int (e + 1)"
      using pow2_split' [of e] by (simp add: u_def)
    moreover have "2 powr real_of_int (e + 1) \<le> 2 powr real_of_int j"
      using e1 unfolding pow2_le_iff .
    ultimately show ?thesis by (rule order_trans)
  qed
qed


lemma round_real_0 [simp]: "round_real 0 = 0"
  by (simp add: round_real_def)

lemma round_real_binade_11:
  "2048 \<le> x \<Longrightarrow> x < 4096 \<Longrightarrow> round_real x = real_of_int (rne (x * 2 ^ 41)) / 2 ^ 41"
  using round_real_binade [of 11 x] by (simp add: powr_neg_numeral)

lemma round_real_binade_5:
  "32 \<le> x \<Longrightarrow> x < 64 \<Longrightarrow> round_real x = real_of_int (rne (x * 2 ^ 47)) / 2 ^ 47"
  using round_real_binade [of 5 x] by (simp add: powr_neg_numeral)

lemma round_real_binade_m8:
  "1 / 256 \<le> x \<Longrightarrow> x < 1 / 128 \<Longrightarrow>
     round_real x = real_of_int (rne (x * 2 ^ 60)) / 2 ^ 60"
  using round_real_binade [of "- 8" x] by (simp add: powr_neg_numeral)

lemma normal_from: "1 / 2 ^ 24 \<le> (x::real) \<Longrightarrow> 2 powr (- 1022) \<le> x"
proof -
  assume a: "1 / 2 ^ 24 \<le> x"
  have "2 powr real_of_int (- 1022) \<le> 2 powr real_of_int (- 24)"
    unfolding pow2_le_iff by simp
  then have "2 powr (- 1022) \<le> (1 / 2 ^ 24 :: real)"
    by (simp add: powr_neg_numeral)
  then show ?thesis using a by (rule order_trans)
qed

lemma round_real_le_numeral:
  "1 / 2 ^ 24 \<le> x \<Longrightarrow> x \<le> 2 powr real_of_int j \<Longrightarrow> round_real x \<le> 2 powr real_of_int j"
  by (rule round_real_le_pow2 [OF normal_from])

text \<open>Integers below \<open>2 ^ 53\<close> are doubles.\<close>

lemma round_real_of_int:
  assumes "0 \<le> m" and "m < 2 ^ 53"
  shows "round_real (real_of_int m) = real_of_int m"
proof (cases "m = 0")
  case True
  then show ?thesis by simp
next
  case False
  then have pos: "0 < real_of_int m" using assms(1) by simp
  define e where "e = \<lfloor>log 2 (real_of_int m)\<rfloor>"
  have b: "2 powr real_of_int e \<le> real_of_int m" "real_of_int m < 2 powr real_of_int (e + 1)"
    using binade_exists [OF pos] by (simp_all add: e_def)
  have "2 powr real_of_int 0 \<le> real_of_int m"
    using False assms(1) by simp
  then have "2 powr real_of_int 0 < 2 powr real_of_int (e + 1)"
    using b(2) by (rule le_less_trans)
  then have e0: "0 \<le> e"
    unfolding pow2_less_iff by simp
  have "real_of_int m < 2 powr real_of_int 53"
    using assms(2) by simp
  then have "2 powr real_of_int e < 2 powr real_of_int 53"
    using b(1) by (rule le_less_trans [rotated])
  then have e52: "e \<le> 52"
    unfolding pow2_less_iff by simp
  define k where "k = nat (52 - e)"
  have "real_of_int (e - 52) = - real k"
    using e52 by (simp add: k_def)
  then have "2 powr real_of_int (e - 52) = 2 powr (- real k)"
    by simp
  also have "\<dots> = 1 / 2 powr (real k)"
    by (rule powr_minus_divide)
  also have "\<dots> = 1 / 2 ^ k"
    by (simp add: powr_realpow)
  finally have u: "2 powr real_of_int (e - 52) = 1 / 2 ^ k" .
  have r: "round_real (real_of_int m)
             = real_of_int (rne (real_of_int m / 2 powr real_of_int (e - 52)))
                 * 2 powr real_of_int (e - 52)"
    using b e0 by (intro round_real_binade) simp_all
  have "real_of_int m / (1 / 2 ^ k) = real_of_int (m * 2 ^ k)"
    by simp
  then show ?thesis
    unfolding r u by (simp only: rne_of_int) simp
qed

text \<open>The quotient of the sum of squares by the length, rounded.\<close>

lemma mean_square_rounding:
  fixes S n :: int
  assumes n: "0 < n" "n \<le> 2 ^ 23" and S: "0 \<le> S" "S \<le> 2 ^ 30 * n"
  defines "q \<equiv> round_real (real_of_int S / real_of_int n)"
  shows "S < 2500 * n \<Longrightarrow> q \<le> 2500 - 1 / 2 ^ 41"
    and "2500 * n \<le> S \<Longrightarrow> 2500 \<le> q"
    and "q \<le> 2 ^ 30"
    and "q = 0 \<or> 1 / 2 ^ 24 \<le> q"
proof -
  let ?x = "real_of_int S / real_of_int n"
  have rn: "0 < real_of_int n" using n(1) by simp
  have lo: "1 / 2 ^ 24 \<le> ?x" if "0 < S"
  proof -
    have "real_of_int n \<le> 2 ^ 24 * real_of_int S"
    proof -
      have "n \<le> 2 ^ 24 * S" using that n(2) by simp
      then have "real_of_int n \<le> real_of_int (2 ^ 24 * S)" by (simp only: of_int_le_iff)
      then show ?thesis by simp
    qed
    then show ?thesis using rn by (simp add: field_simps)
  qed
  have hi: "?x \<le> 2 ^ 30"
  proof -
    have "real_of_int S \<le> real_of_int (2 ^ 30 * n)" using S(2) by (simp only: of_int_le_iff)
    then show ?thesis using rn by (simp add: field_simps)
  qed
  show "q \<le> 2 ^ 30"
  proof (cases "S = 0")
    case True
    then show ?thesis by (simp add: q_def)
  next
    case False
    then have "0 < S" using S(1) by simp
    then show ?thesis
      using round_real_le_numeral [OF lo, of 30] hi by (simp add: q_def)
  qed
  show "q = 0 \<or> 1 / 2 ^ 24 \<le> q"
  proof (cases "S = 0")
    case True
    then show ?thesis by (simp add: q_def)
  next
    case False
    then have "0 < S" using S(1) by simp
    then have "2 powr real_of_int (- 24) \<le> ?x"
      using lo by (simp add: powr_neg_numeral)
    then have "2 powr real_of_int (- 24) \<le> q"
      unfolding q_def by (rule round_real_ge_pow2) simp
    then show ?thesis by (simp add: powr_neg_numeral)
  qed
  show "q \<le> 2500 - 1 / 2 ^ 41" if lt: "S < 2500 * n"
  proof (cases "S = 0")
    case True
    then show ?thesis by (simp add: q_def)
  next
    case False
    then have p: "0 < S" using S(1) by simp
    show ?thesis
    proof (cases "?x < 2048")
      case True
      then have "q \<le> 2048"
        using round_real_le_numeral [OF lo [OF p], of 11] by (simp add: q_def)
      then show ?thesis by simp
    next
      case False
      have "real_of_int S < real_of_int (2500 * n)" using lt by (simp only: of_int_less_iff)
      then have "?x < 4096" using rn by (simp add: field_simps)
      then have r: "q = real_of_int (rne (?x * 2 ^ 41)) / 2 ^ 41"
        unfolding q_def using False by (intro round_real_binade_11) simp_all
      have "S * 2 ^ 41 \<le> (2500 * 2 ^ 41 - 1) * n"
        using lt n by simp
      then have "real_of_int (S * 2 ^ 41) \<le> real_of_int ((2500 * 2 ^ 41 - 1) * n)"
        by (simp only: of_int_le_iff)
      then have "?x * 2 ^ 41 \<le> real_of_int (2500 * 2 ^ 41 - 1)"
        using rn by (simp add: field_simps)
      then have "rne (?x * 2 ^ 41) \<le> 2500 * 2 ^ 41 - 1"
        by (rule rne_le)
      then have "real_of_int (rne (?x * 2 ^ 41)) \<le> real_of_int (2500 * 2 ^ 41 - 1)"
        by (simp only: of_int_le_iff)
      then show ?thesis
        unfolding r by (simp add: field_simps)
    qed
  qed
  show "2500 \<le> q" if ge: "2500 * n \<le> S"
  proof -
    have "real_of_int (2500 * n) \<le> real_of_int S" using ge by (simp only: of_int_le_iff)
    then have x: "2500 \<le> ?x" using rn by (simp add: field_simps)
    show ?thesis
    proof (cases "?x < 4096")
      case True
      then have r: "q = real_of_int (rne (?x * 2 ^ 41)) / 2 ^ 41"
        unfolding q_def using x by (intro round_real_binade_11) simp_all
      have "2500 * 2 ^ 41 \<le> ?x * 2 ^ 41"
        using x by (intro mult_right_mono) simp_all
      then have "real_of_int (2500 * 2 ^ 41) \<le> ?x * 2 ^ 41"
        by simp
      then have "2500 * 2 ^ 41 \<le> rne (?x * 2 ^ 41)"
        by (rule rne_ge)
      then have "real_of_int (2500 * 2 ^ 41) \<le> real_of_int (rne (?x * 2 ^ 41))"
        by (simp only: of_int_le_iff)
      then show ?thesis
        unfolding r by (simp add: field_simps)
    next
      case False
      then have "2 powr real_of_int 12 \<le> ?x" by simp
      then have "2 powr real_of_int 12 \<le> q"
        unfolding q_def by (rule round_real_ge_pow2) simp
      then show ?thesis by simp
    qed
  qed
qed


text \<open>The square root of the rounded quotient, rounded.\<close>

lemma sqrt_rounding:
  fixes q :: real
  assumes q: "q = 0 \<or> 1 / 2 ^ 24 \<le> q" "q \<le> 2 ^ 30"
  defines "r \<equiv> round_real (sqrt q)"
  shows "q \<le> 2500 - 1 / 2 ^ 41 \<Longrightarrow> r < 50"
    and "2500 \<le> q \<Longrightarrow> 50 \<le> r"
    and "0 \<le> r"
    and "r \<le> 2 ^ 15"
proof -
  have lo: "1 / 2 ^ 12 \<le> sqrt q" if "q \<noteq> 0"
  proof -
    have "(1 / 2 ^ 12)\<^sup>2 \<le> q" using that q(1) by (simp add: power2_eq_square)
    then show ?thesis by (rule real_le_rsqrt)
  qed
  have lo': "1 / 2 ^ 24 \<le> sqrt q" if "q \<noteq> 0"
    using lo [OF that] by simp
  have hi: "sqrt q \<le> 2 ^ 15"
    using q(2) by (intro real_le_lsqrt) (simp_all add: power2_eq_square)
  show "r \<le> 2 ^ 15"
  proof (cases "q = 0")
    case True
    then show ?thesis by (simp add: r_def)
  next
    case False
    then show ?thesis
      using round_real_le_numeral [OF lo' [OF False], of 15] hi by (simp add: r_def)
  qed
  show "0 \<le> r"
  proof (cases "q = 0")
    case True
    then show ?thesis by (simp add: r_def)
  next
    case False
    have "2 powr real_of_int (- 12) \<le> sqrt q"
      using lo [OF False] by (simp add: powr_neg_numeral)
    then have "2 powr real_of_int (- 12) \<le> r"
      unfolding r_def by (rule round_real_ge_pow2) simp
    then show ?thesis by (simp add: powr_neg_numeral)
  qed
  show "r < 50" if le: "q \<le> 2500 - 1 / 2 ^ 41"
  proof (cases "q = 0")
    case True
    then show ?thesis by (simp add: r_def)
  next
    case False
    show ?thesis
    proof (cases "sqrt q < 32")
      case True
      then have "r \<le> 32"
        using round_real_le_numeral [OF lo' [OF False], of 5] by (simp add: r_def)
      then show ?thesis by simp
    next
      case ge: False
      have "(2500 - 1 / 2 ^ 41 :: real) < (50 - 1 / 2 ^ 48)\<^sup>2"
        by (simp add: power2_eq_square field_simps)
      then have "q < (50 - 1 / 2 ^ 48)\<^sup>2"
        by (rule le_less_trans [OF le])
      then have z: "sqrt q < 50 - 1 / 2 ^ 48"
        by (intro real_less_lsqrt) simp_all
      then have "sqrt q < 64" by simp
      then have r: "r = real_of_int (rne (sqrt q * 2 ^ 47)) / 2 ^ 47"
        unfolding r_def using ge by (intro round_real_binade_5) simp_all
      have "sqrt q * 2 ^ 47 < (50 - 1 / 2 ^ 48) * 2 ^ 47"
        using z by (intro mult_strict_right_mono) simp_all
      then have "sqrt q * 2 ^ 47 < real_of_int (50 * 2 ^ 47 - 1) + 1 / 2"
        by simp
      then have "rne (sqrt q * 2 ^ 47) \<le> 50 * 2 ^ 47 - 1"
        by (rule rne_le_half)
      then have "real_of_int (rne (sqrt q * 2 ^ 47)) \<le> real_of_int (50 * 2 ^ 47 - 1)"
        by (simp only: of_int_le_iff)
      then show ?thesis
        unfolding r by (simp add: field_simps)
    qed
  qed
  show "50 \<le> r" if ge: "2500 \<le> q"
  proof -
    have z: "50 \<le> sqrt q"
      using ge by (intro real_le_rsqrt) (simp add: power2_eq_square)
    show ?thesis
    proof (cases "sqrt q < 64")
      case True
      then have r: "r = real_of_int (rne (sqrt q * 2 ^ 47)) / 2 ^ 47"
        unfolding r_def using z by (intro round_real_binade_5) simp_all
      have "50 * 2 ^ 47 \<le> sqrt q * 2 ^ 47"
        using z by (intro mult_right_mono) simp_all
      then have "real_of_int (50 * 2 ^ 47) \<le> sqrt q * 2 ^ 47"
        by simp
      then have "50 * 2 ^ 47 \<le> rne (sqrt q * 2 ^ 47)"
        by (rule rne_ge)
      then have "real_of_int (50 * 2 ^ 47) \<le> real_of_int (rne (sqrt q * 2 ^ 47))"
        by (simp only: of_int_le_iff)
      then show ?thesis
        unfolding r by (simp add: field_simps)
    next
      case False
      then have "2 powr real_of_int 6 \<le> sqrt q" by simp
      then have "2 powr real_of_int 6 \<le> r"
        unfolding r_def by (rule round_real_ge_pow2) simp
      then show ?thesis by simp
    qed
  qed
qed

text \<open>The literal \<open>0.005\<close> as a double.\<close>

lemma round_real_0005: "round_real (1 / 200) = 5764607523034235 / 2 ^ 60"
proof -
  have r: "round_real (1 / 200) = real_of_int (rne (1 / 200 * 2 ^ 60)) / 2 ^ 60"
    by (rule round_real_binade_m8) simp_all
  have "rne (1 / 200 * 2 ^ 60) \<le> 5764607523034235"
    by (rule rne_le_half) simp
  moreover have "5764607523034235 \<le> rne (1 / 200 * 2 ^ 60)"
    by (rule rne_ge_half) simp
  ultimately have "rne (1 / 200 * 2 ^ 60) = 5764607523034235"
    by simp
  then show ?thesis
    unfolding r by simp
qed

text \<open>The quotient of the count of active samples by the length, rounded.\<close>

lemma ratio_rounding:
  fixes k n :: int
  assumes n: "0 < n" "n \<le> 2 ^ 23" and k: "0 \<le> k" "k \<le> n"
  defines "t \<equiv> round_real (real_of_int k / real_of_int n)"
  shows "200 * k < n \<Longrightarrow> t < round_real (5 / 1000)"
    and "n \<le> 200 * k \<Longrightarrow> round_real (5 / 1000) \<le> t"
    and "0 \<le> t"
    and "t \<le> 1"
proof -
  let ?x = "real_of_int k / real_of_int n"
  have rn: "0 < real_of_int n" using n(1) by simp
  have lo: "1 / 2 ^ 24 \<le> ?x" if "0 < k"
  proof -
    have "n \<le> 2 ^ 24 * k" using that n(2) by simp
    then have "real_of_int n \<le> real_of_int (2 ^ 24 * k)" by (simp only: of_int_le_iff)
    then show ?thesis using rn by (simp add: field_simps)
  qed
  have hi: "?x \<le> 1"
  proof -
    have "real_of_int k \<le> real_of_int n" using k(2) by (simp only: of_int_le_iff)
    then show ?thesis using rn by (simp add: field_simps)
  qed
  show "t \<le> 1"
  proof (cases "k = 0")
    case True
    then show ?thesis by (simp add: t_def)
  next
    case False
    then have "0 < k" using k(1) by simp
    then show ?thesis
      using round_real_le_numeral [OF lo, of 0] hi by (simp add: t_def)
  qed
  show "0 \<le> t"
  proof (cases "k = 0")
    case True
    then show ?thesis by (simp add: t_def)
  next
    case False
    then have "0 < k" using k(1) by simp
    then have "2 powr real_of_int (- 24) \<le> ?x"
      using lo by (simp add: powr_neg_numeral)
    then have "2 powr real_of_int (- 24) \<le> t"
      unfolding t_def by (rule round_real_ge_pow2) simp
    then show ?thesis by (simp add: powr_neg_numeral)
  qed
  show "t < round_real (5 / 1000)" if lt: "200 * k < n"
  proof (cases "k = 0")
    case True
    then show ?thesis by (simp add: t_def round_real_0005)
  next
    case False
    then have p: "0 < k" using k(1) by simp
    show ?thesis
    proof (cases "?x < 1 / 256")
      case True
      have "t \<le> 2 powr real_of_int (- 8)"
        unfolding t_def using True
        by (intro round_real_le_numeral [OF lo [OF p]]) (simp add: powr_neg_numeral)
      then have "t \<le> 1 / 256" by (simp add: powr_neg_numeral)
      then show ?thesis by (simp add: round_real_0005)
    next
      case False
      have "real_of_int (200 * k) < real_of_int n" using lt by (simp only: of_int_less_iff)
      then have "?x < 1 / 128" using rn by (simp add: field_simps)
      then have r: "t = real_of_int (rne (?x * 2 ^ 60)) / 2 ^ 60"
        unfolding t_def using False by (intro round_real_binade_m8) simp_all
      have "k * 2 ^ 60 \<le> 5764607523034234 * n"
        using lt n by simp
      then have "real_of_int (k * 2 ^ 60) \<le> real_of_int (5764607523034234 * n)"
        by (simp only: of_int_le_iff)
      then have "?x * 2 ^ 60 \<le> real_of_int 5764607523034234"
        using rn by (simp add: field_simps)
      then have "rne (?x * 2 ^ 60) \<le> 5764607523034234"
        by (rule rne_le)
      then have "real_of_int (rne (?x * 2 ^ 60)) \<le> real_of_int 5764607523034234"
        by (simp only: of_int_le_iff)
      then show ?thesis
        unfolding r by (simp add: round_real_0005 field_simps)
    qed
  qed
  show "round_real (5 / 1000) \<le> t" if ge: "n \<le> 200 * k"
  proof -
    have "real_of_int n \<le> real_of_int (200 * k)" using ge by (simp only: of_int_le_iff)
    then have x: "1 / 200 \<le> ?x" using rn by (simp add: field_simps)
    show ?thesis
    proof (cases "?x < 1 / 128")
      case True
      have "1 / 256 \<le> ?x" using x by simp
      then have r: "t = real_of_int (rne (?x * 2 ^ 60)) / 2 ^ 60"
        unfolding t_def using True by (intro round_real_binade_m8) simp_all
      have "1 / 200 * 2 ^ 60 \<le> ?x * 2 ^ 60"
        using x by (intro mult_right_mono) simp_all
      then have "real_of_int 5764607523034235 - 1 / 2 < ?x * 2 ^ 60"
        by simp
      then have "5764607523034235 \<le> rne (?x * 2 ^ 60)"
        by (rule rne_ge_half)
      then have "real_of_int 5764607523034235 \<le> real_of_int (rne (?x * 2 ^ 60))"
        by (simp only: of_int_le_iff)
      then show ?thesis
        unfolding r by (simp add: round_real_0005 field_simps)
    next
      case False
      then have "2 powr real_of_int (- 7) \<le> ?x" by (simp add: powr_neg_numeral)
      then have "2 powr real_of_int (- 7) \<le> t"
        unfolding t_def by (rule round_real_ge_pow2) simp
      then have "1 / 128 \<le> t" by (simp add: powr_neg_numeral)
      then show ?thesis by (simp add: round_real_0005)
    qed
  qed
qed

subsection \<open>Properties of the speech gate\<close>

text \<open>
  For a chunk of fewer than \<open>2 ^ 23\<close> samples the accumulators and the length are below
  \<open>2 ^ 53\<close>, so their conversions to \<open>double\<close> are exact, and no operation overflows.
\<close>

lemma gate_quotients:
  assumes "xs \<noteq> []" and "length xs < 2 ^ 23"
  shows "rms xs
           = Fin (round_real (sqrt (round_real
               (real_of_int (sum_squares xs) / real_of_int (int (length xs))))))"
    and "speech_ratio xs
           = Fin (round_real (real_of_int (speech_samples xs) / real_of_int (int (length xs))))"
proof -
  let ?S = "sum_squares xs" and ?k = "speech_samples xs" and ?n = "int (length xs)"
  have n: "0 < ?n" "?n \<le> 2 ^ 23" "?n < 2 ^ 23"
    using assms by simp_all
  have S: "0 \<le> ?S" "?S \<le> 2 ^ 30 * ?n"
    using sum_squares_bounds [of xs] by simp_all
  have k: "0 \<le> ?k" "?k \<le> ?n"
    using speech_samples_bounds [of xs] by simp_all
  have "?S < 2 ^ 53" using S(2) n(3) by simp
  then have dS: "double_of_int ?S = real_of_int ?S"
    unfolding double_of_int_def using S(1) by (intro round_real_of_int)
  have "?n < 2 ^ 53" using n(3) by simp
  then have dn: "double_of_int ?n = real_of_int ?n"
    unfolding double_of_int_def using n(1) by (intro round_real_of_int) simp_all
  have "?k < 2 ^ 53" using k(2) n(3) by simp
  then have dk: "double_of_int ?k = real_of_int ?k"
    unfolding double_of_int_def using k(1) by (intro round_real_of_int)
  note q = mean_square_rounding [OF n(1,2) S]
  note r = sqrt_rounding [OF q(4) q(3)]
  note t = ratio_rounding [OF n(1,2) k]
  let ?q = "round_real (real_of_int ?S / real_of_int ?n)"
  have q0: "0 \<le> ?q" "\<bar>?q\<bar> < 2 ^ 1024"
  proof -
    show "0 \<le> ?q" using q(4) by auto
    then have "\<bar>?q\<bar> \<le> 2 ^ 30" using q(3) by simp
    also have "(2 ^ 30 :: real) < 2 ^ 1024" by simp
    finally show "\<bar>?q\<bar> < 2 ^ 1024" .
  qed
  have r0: "\<bar>round_real (sqrt ?q)\<bar> < 2 ^ 1024"
  proof -
    have "\<bar>round_real (sqrt ?q)\<bar> \<le> 2 ^ 15" using r(3,4) by simp
    also have "(2 ^ 15 :: real) < 2 ^ 1024" by simp
    finally show ?thesis .
  qed
  have t0: "\<bar>round_real (real_of_int ?k / real_of_int ?n)\<bar> < 2 ^ 1024"
  proof -
    have "\<bar>round_real (real_of_int ?k / real_of_int ?n)\<bar> \<le> 1" using t(3,4) by simp
    also have "(1 :: real) < 2 ^ 1024" by simp
    finally show ?thesis .
  qed
  have dq: "dbl_div (double_of_int ?S) (double_of_int ?n) = Fin ?q"
    unfolding dS dn dbl_div_def round_double_def using n(1) q0(2) by (simp add: Let_def)
  show "rms xs = Fin (round_real (sqrt ?q))"
    unfolding rms_def dq using q0(1) r0 by (simp add: round_double_def Let_def)
  show "speech_ratio xs = Fin (round_real (real_of_int ?k / real_of_int ?n))"
    unfolding speech_ratio_def dS dn dk dbl_div_def round_double_def
    using n(1) t0 by (simp add: Let_def)
qed

text \<open>The gate on integers: what a concrete chunk is evaluated with.\<close>

lemma hasSubstantialSpeech_int:
  assumes "xs \<noteq> []" and "length xs < 2 ^ 23"
  shows "hasSubstantialSpeech xs \<longleftrightarrow>
           2500 * int (length xs) \<le> sum_squares xs \<and> int (length xs) \<le> 200 * speech_samples xs"
proof -
  let ?S = "sum_squares xs" and ?k = "speech_samples xs" and ?n = "int (length xs)"
  have n: "0 < ?n" "?n \<le> 2 ^ 23"
    using assms by simp_all
  have S: "0 \<le> ?S" "?S \<le> 2 ^ 30 * ?n"
    using sum_squares_bounds [of xs] by simp_all
  have k: "0 \<le> ?k" "?k \<le> ?n"
    using speech_samples_bounds [of xs] by simp_all
  note q = mean_square_rounding [OF n S]
  note r = sqrt_rounding [OF q(4) q(3)]
  note t = ratio_rounding [OF n k]
  let ?q = "round_real (real_of_int ?S / real_of_int ?n)"
  have a: "round_real (sqrt ?q) < 50 \<longleftrightarrow> ?S < 2500 * ?n"
  proof
    assume lt: "round_real (sqrt ?q) < 50"
    show "?S < 2500 * ?n"
    proof (rule ccontr)
      assume "\<not> ?S < 2500 * ?n"
      then have "2500 * ?n \<le> ?S" by simp
      then have "50 \<le> round_real (sqrt ?q)" by (intro r(2) q(2))
      then show False using lt by simp
    qed
  next
    assume "?S < 2500 * ?n"
    then have "?q \<le> 2500 - 1 / 2 ^ 41" by (rule q(1))
    then show "round_real (sqrt ?q) < 50" by (rule r(1))
  qed
  have b: "round_real (real_of_int ?k / real_of_int ?n) < round_real (5 / 10 ^ 3)
             \<longleftrightarrow> 200 * ?k < ?n"
  proof
    assume lt: "round_real (real_of_int ?k / real_of_int ?n) < round_real (5 / 10 ^ 3)"
    show "200 * ?k < ?n"
    proof (rule ccontr)
      assume "\<not> 200 * ?k < ?n"
      then have "?n \<le> 200 * ?k" by simp
      then have "round_real (5 / 1000) \<le> round_real (real_of_int ?k / real_of_int ?n)"
        by (rule t(2))
      then show False using lt by simp
    qed
  next
    assume "200 * ?k < ?n"
    then have "round_real (real_of_int ?k / real_of_int ?n) < round_real (5 / 1000)"
      by (rule t(1))
    then show "round_real (real_of_int ?k / real_of_int ?n) < round_real (5 / 10 ^ 3)"
      by simp
  qed
  have "hasSubstantialSpeech xs \<longleftrightarrow>
          \<not> round_real (sqrt ?q) < 50
          \<and> \<not> round_real (real_of_int ?k / real_of_int ?n) < round_real (5 / 10 ^ 3)"
    unfolding hasSubstantialSpeech_def gate_quotients [OF assms] MIN_RMS_THRESHOLD_def
    using assms(1) by (simp only: dbl_less.simps if_False) auto
  then show ?thesis
    unfolding a b by auto
qed

text \<open>The specification's two quantities, exact, on integers.\<close>

lemma rms_amplitude_sum_squares:
  "rms_amplitude xs = sqrt (real_of_int (sum_squares xs) / real (length xs))"
proof -
  have "(\<Sum>x\<leftarrow>ys. (real_of_int (sint x))\<^sup>2) = real_of_int (\<Sum>x\<leftarrow>ys. sint x * sint x)"
    for ys :: "sample list"
    by (induction ys) (simp_all add: power2_eq_square)
  then show ?thesis
    by (simp add: rms_amplitude_def sum_squares_sum_list)
qed

lemma activity_ratio_speech_samples:
  "activity_ratio xs = real_of_int (speech_samples xs) / real (length xs)"
  by (simp add: activity_ratio_def speech_samples_filter)

lemma fifty_le_sqrt: "50 \<le> sqrt x \<longleftrightarrow> 2500 \<le> x"
  using real_sqrt_le_iff [of 2500 x] by simp

lemma exact_thresholds:
  assumes "xs \<noteq> []"
  shows "MIN_RMS_THRESHOLD \<le> rms_amplitude xs \<longleftrightarrow> 2500 * int (length xs) \<le> sum_squares xs"
    and "0.005 \<le> activity_ratio xs \<longleftrightarrow> int (length xs) \<le> 200 * speech_samples xs"
proof -
  have n: "0 < real (length xs)" using assms by simp
  have "2500 \<le> real_of_int (sum_squares xs) / real (length xs)
          \<longleftrightarrow> 2500 * real (length xs) \<le> real_of_int (sum_squares xs)"
    using n by (simp add: pos_le_divide_eq)
  also have "\<dots> \<longleftrightarrow> real_of_int (2500 * int (length xs)) \<le> real_of_int (sum_squares xs)"
    by simp
  also have "\<dots> \<longleftrightarrow> 2500 * int (length xs) \<le> sum_squares xs"
    by (rule of_int_le_iff)
  finally show "MIN_RMS_THRESHOLD \<le> rms_amplitude xs
                  \<longleftrightarrow> 2500 * int (length xs) \<le> sum_squares xs"
    by (simp add: MIN_RMS_THRESHOLD_def rms_amplitude_sum_squares fifty_le_sqrt)
  have "0.005 \<le> real_of_int (speech_samples xs) / real (length xs)
          \<longleftrightarrow> 0.005 * real (length xs) \<le> real_of_int (speech_samples xs)"
    using n by (simp add: pos_le_divide_eq)
  also have "\<dots> \<longleftrightarrow> real_of_int (int (length xs)) \<le> real_of_int (200 * speech_samples xs)"
    by (simp add: mult.commute)
  also have "\<dots> \<longleftrightarrow> int (length xs) \<le> 200 * speech_samples xs"
    by (rule of_int_le_iff)
  finally show "0.005 \<le> activity_ratio xs \<longleftrightarrow> int (length xs) \<le> 200 * speech_samples xs"
    by (simp only: activity_ratio_speech_samples)
qed

text \<open>A chunk of zeros is rejected, whatever its length.\<close>

lemma all_zero_rejected:
  assumes "set xs \<subseteq> {0}"
  shows "\<not> hasSubstantialSpeech xs"
proof (cases "xs = []")
  case True
  then show ?thesis by (simp add: hasSubstantialSpeech_def)
next
  case False
  have "(\<Sum>x\<leftarrow>xs. sint x * sint x) = 0"
    using assms by (induction xs) auto
  then have S: "sum_squares xs = 0" by (simp add: sum_squares_sum_list)
  have "2 powr real_of_int 0 \<le> real_of_int (int (length xs))"
    using False by (cases xs) simp_all
  then have "2 powr real_of_int 0 \<le> round_real (real_of_int (int (length xs)))"
    by (rule round_real_ge_pow2) simp
  then have "double_of_int (int (length xs)) \<noteq> 0"
    by (simp add: double_of_int_def)
  then have "rms xs = Fin 0"
    by (simp add: rms_def S double_of_int_def dbl_div_def round_double_def)
  then show ?thesis
    using False by (simp add: hasSubstantialSpeech_def MIN_RMS_THRESHOLD_def)
qed

text \<open>
  Claim C7. For every non-empty chunk (of fewer than \<open>2 ^ 23\<close> samples, far more than the
  48000 of the chunks that the program builds) the gate, computing in \<open>double\<close>, accepts exactly
  when the root-mean-square amplitude is at least the minimum-RMS threshold (50) and the
  fraction of samples whose absolute value exceeds the activity threshold (200) is at least
  0.005; every chunk of zeros is rejected.
\<close>

theorem speech_gate_accepts_iff:
  "audio_chunk \<noteq> [] \<Longrightarrow> length audio_chunk < 2 ^ 23 \<Longrightarrow>
     (hasSubstantialSpeech audio_chunk \<longleftrightarrow>
        MIN_RMS_THRESHOLD \<le> rms_amplitude audio_chunk \<and> 0.005 \<le> activity_ratio audio_chunk)
     \<and> (set audio_chunk \<subseteq> {0} \<longrightarrow> \<not> hasSubstantialSpeech audio_chunk)"
  using hasSubstantialSpeech_int [of audio_chunk] exact_thresholds [of audio_chunk]
    all_zero_rejected [of audio_chunk]
  by blast

theorem speech_gate_accepts_iff_witness:
  "[1000, - 1000, 300 :: sample] \<noteq> []
   \<and> length [1000, - 1000, 300 :: sample] < 2 ^ 23
   \<and> hasSubstantialSpeech [1000, - 1000, 300]
   \<and> MIN_RMS_THRESHOLD \<le> rms_amplitude [1000, - 1000, 300]
   \<and> 0.005 \<le> activity_ratio [1000, - 1000, 300]
   \<and> set [0, 0, 0 :: sample] \<subseteq> {0}
   \<and> \<not> hasSubstantialSpeech [0, 0, 0]"
proof -
  have a: "[1000, - 1000, 300 :: sample] \<noteq> []" and z: "[0, 0, 0 :: sample] \<noteq> []"
    by simp_all
  have la: "length [1000, - 1000, 300 :: sample] < 2 ^ 23"
    and lz: "length [0, 0, 0 :: sample] < 2 ^ 23"
    by simp_all
  have acc: "hasSubstantialSpeech [1000, - 1000, 300]"
    by (simp add: hasSubstantialSpeech_int sum_squares_sum_list speech_samples_filter)
  have s: "set [0, 0, 0 :: sample] \<subseteq> {0}"
    by simp
  from speech_gate_accepts_iff [OF a la] acc
  have "MIN_RMS_THRESHOLD \<le> rms_amplitude [1000, - 1000, 300]
        \<and> 0.005 \<le> activity_ratio [1000, - 1000, 300]"
    by blast
  moreover from speech_gate_accepts_iff [OF z lz] s
  have "\<not> hasSubstantialSpeech [0, 0, 0]"
    by blast
  ultimately show ?thesis
    using a la acc s by blast
qed

lemma quotients_of_empty_chunk:
  "rms [] = NaN" "speech_ratio [] = NaN"
  by (simp_all add: rms_def speech_ratio_def dbl_div_def double_of_int_def sum_squares_def
      speech_samples_def)



text \<open>
  Without the guard the empty chunk would be accepted: both quotients are NaN, and a
  comparison with NaN is false.
\<close>

lemma unguarded_checks_on_empty_chunk:
  "\<not> dbl_less (rms []) MIN_RMS_THRESHOLD \<and> \<not> dbl_less (speech_ratio []) (round_real 0.005)"
  by (simp add: quotients_of_empty_chunk)

subsection \<open>The gate on chunks of constant stretches\<close>

lemma sum_squares_append: "sum_squares (xs @ ys) = sum_squares xs + sum_squares ys"
  by (simp add: sum_squares_sum_list)

lemma sum_squares_replicate: "sum_squares (replicate n x) = int n * (sint x * sint x)"
  by (simp add: sum_squares_sum_list sum_list_replicate)

lemma speech_samples_append: "speech_samples (xs @ ys) = speech_samples xs + speech_samples ys"
  by (simp add: speech_samples_filter)

lemma speech_samples_replicate:
  "speech_samples (replicate n x) = (if \<bar>sint x\<bar> > 200 then int n else 0)"
  by (simp add: speech_samples_filter)

lemmas gate_on_stretches =
  hasSubstantialSpeech_int sum_squares_append sum_squares_replicate
  speech_samples_append speech_samples_replicate

lemma zero_chunk_rejected: "\<not> hasSubstantialSpeech (replicate n 0)"
  by (rule all_zero_rejected) auto

lemma loud_chunk_accepted: "hasSubstantialSpeech (replicate 48000 1000)"
  by (simp add: gate_on_stretches)

subsection \<open>Properties of the hallucination filter\<close>

lemma tolower_idem: "tolower (tolower c) = tolower c"
proof -
  have "of_char (char_of (n + 32) :: char) = n + 32" if "65 \<le> n" and "n \<le> 90" for n :: nat
    using that by simp
  then show ?thesis
    by (auto simp add: tolower_def Let_def)
qed

lemma map_tolower_idem: "map tolower (map tolower t) = map tolower t"
  by (simp add: tolower_idem)

lemma str_find_sublist: "str_find s needle \<noteq> None \<longleftrightarrow> sublist needle s"
proof (induction s)
  case Nil
  show ?case by simp
next
  case (Cons c cs)
  show ?case
  proof (cases needle)
    case Nil
    then show ?thesis by simp
  next
    case (Cons a as)
    have "sublist (a # as) (c # cs) \<longleftrightarrow> prefix (a # as) (c # cs) \<or> sublist (a # as) cs"
      by (rule sublist_code)
    then show ?thesis
      using Cons.IH Cons by auto
  qed
qed

lemma isHallucination_fragment:
  assumes "fragment \<in> set hallucinations" and "sublist fragment (map tolower t)"
  shows "isHallucination t"
proof -
  have "str_find (map tolower t) fragment \<noteq> None"
    using assms(2) by (simp only: str_find_sublist)
  then have "list_ex (\<lambda>halluc. str_find (map tolower t) halluc \<noteq> None) hallucinations"
    using assms(1) unfolding list_ex_iff by blast
  then show ?thesis
    by (simp add: isHallucination_def)
qed

lemma is_hallucination_cli_fragment:
  assumes "fragment \<in> set hallucinations_cli" and "sublist fragment (map tolower t)"
  shows "is_hallucination_cli t"
proof -
  have "str_find (map tolower t) fragment \<noteq> None"
    using assms(2) by (simp only: str_find_sublist)
  then have "list_ex (\<lambda>halluc. str_find (map tolower t) halluc \<noteq> None) hallucinations_cli"
    using assms(1) unfolding list_ex_iff by blast
  then show ?thesis
    by (simp add: is_hallucination_cli_def)
qed

lemma capi_thanks:
  "transcribeWithWhisper_capi \<lparr>full_ret = 0, segment_texts = [Some ''Thanks for watching'']\<rparr> = []"
  by code_simp

lemma capi_timer:
  "transcribeWithWhisper_capi
     \<lparr>full_ret = 0, segment_texts = [Some ''set a timer for five minutes'']\<rparr>
   = ''set a timer for five minutes''"
  by code_simp

lemma cli_thanks:
  "transcribeWithWhisper_cli (ProcessExited [segment_line ''Thanks for watching''] 0) = []"
  by code_simp

lemma cli_timer:
  "transcribeWithWhisper_cli (ProcessExited [segment_line ''set a timer for five minutes''] 0)
   = ''set a timer for five minutes''"
  by code_simp

lemma cli_timer_accepted:
  "text_accepted (Cli spawn) ''set a timer for five minutes''"
  by (simp, code_simp)

text \<open>
  Claim C8. Both checks of the filter read the segment through \<open>tolower\<close> only, so they do not
  see the case of a letter; the filter rejects "Thanks for watching", which then adds nothing to
  the text that \<open>transcribeWithWhisper\<close> returns, and lets "set a timer for five minutes"
  through unchanged, in both variants.
\<close>

theorem hallucination_filter_examples:
  "isHallucination t = isHallucination (map tolower t)
   \<and> is_hallucination_cli t = is_hallucination_cli (map tolower t)
   \<and> isHallucination ''Thanks for watching''
   \<and> is_hallucination_cli ''Thanks for watching''
   \<and> transcribeWithWhisper_capi
        \<lparr>full_ret = 0, segment_texts = [Some ''Thanks for watching'']\<rparr> = []
   \<and> transcribeWithWhisper_cli (ProcessExited [segment_line ''Thanks for watching''] 0) = []
   \<and> \<not> isHallucination ''set a timer for five minutes''
   \<and> \<not> is_hallucination_cli ''set a timer for five minutes''
   \<and> transcribeWithWhisper_capi
        \<lparr>full_ret = 0, segment_texts = [Some ''set a timer for five minutes'']\<rparr>
      = ''set a timer for five minutes''
   \<and> transcribeWithWhisper_cli
        (ProcessExited [segment_line ''set a timer for five minutes''] 0)
      = ''set a timer for five minutes''
   \<and> text_accepted (Cli spawn) ''set a timer for five minutes''"
proof -
  have ci: "isHallucination t = isHallucination (map tolower t)"
    by (simp only: isHallucination_def map_tolower_idem)
  have ci': "is_hallucination_cli t = is_hallucination_cli (map tolower t)"
    by (simp only: is_hallucination_cli_def map_tolower_idem)
  have r: "isHallucination ''Thanks for watching''"
    by code_simp
  have r': "is_hallucination_cli ''Thanks for watching''"
    by code_simp
  have a: "\<not> isHallucination ''set a timer for five minutes''"
    by code_simp
  have a': "\<not> is_hallucination_cli ''set a timer for five minutes''"
    by code_simp
  show ?thesis
    using ci ci' r r' a a' capi_thanks cli_thanks capi_timer cli_timer cli_timer_accepted
    by blast
qed

theorem hallucination_filter_examples_witness:
  "isHallucination ''THANKS FOR WATCHING'' = isHallucination ''thanks for watching''
   \<and> isHallucination ''Thanks for watching''
   \<and> \<not> isHallucination ''set a timer for five minutes''"
proof -
  have "map tolower ''THANKS FOR WATCHING'' = ''thanks for watching''"
    by code_simp
  then show ?thesis
    using hallucination_filter_examples [of "''THANKS FOR WATCHING''"] by simp
qed

lemma capi_audio:
  "transcribeWithWhisper_capi \<lparr>full_ret = 0, segment_texts = [Some ''turn the audio up'']\<rparr> = []"
  by code_simp

lemma capi_music:
  "transcribeWithWhisper_capi \<lparr>full_ret = 0, segment_texts = [Some ''play some music'']\<rparr> = []"
  by code_simp

lemma cli_audio:
  "transcribeWithWhisper_cli (ProcessExited [segment_line ''turn the audio up''] 0) = []"
  by code_simp

lemma cli_music:
  "transcribeWithWhisper_cli (ProcessExited [segment_line ''play some music''] 0) = []"
  by code_simp

lemma common_words_listed:
  "set [''audio'', ''music'', ''transcript'', ''subscribe'', ''thank you'']
     \<subseteq> set hallucinations \<inter> set hallucinations_cli"
  by (simp add: hallucinations_def hallucinations_cli_def)

text \<open>
  Claim C10. The substring check rejects every segment whose lower-cased text contains a listed
  fragment anywhere. "audio", "music", "transcript", "subscribe" and "thank you" are listed, so
  the genuine segments "turn the audio up" and "play some music" are rejected and the text that
  \<open>transcribeWithWhisper\<close> returns for them is empty, in both variants.
\<close>

theorem substring_check_rejects_common_words:
  "(fragment \<in> set hallucinations \<and> sublist fragment (map tolower t) \<longrightarrow> isHallucination t)
   \<and> (fragment \<in> set hallucinations_cli \<and> sublist fragment (map tolower t)
        \<longrightarrow> is_hallucination_cli t)
   \<and> set [''audio'', ''music'', ''transcript'', ''subscribe'', ''thank you'']
        \<subseteq> set hallucinations \<inter> set hallucinations_cli
   \<and> transcribeWithWhisper_capi
        \<lparr>full_ret = 0, segment_texts = [Some ''turn the audio up'']\<rparr> = []
   \<and> transcribeWithWhisper_capi
        \<lparr>full_ret = 0, segment_texts = [Some ''play some music'']\<rparr> = []
   \<and> transcribeWithWhisper_cli (ProcessExited [segment_line ''turn the audio up''] 0) = []
   \<and> transcribeWithWhisper_cli (ProcessExited [segment_line ''play some music''] 0) = []"
  using isHallucination_fragment [of fragment t] is_hallucination_cli_fragment [of fragment t]
    common_words_listed capi_audio capi_music cli_audio cli_music
  by blast

theorem substring_check_rejects_common_words_witness:
  "''audio'' \<in> set hallucinations \<and> sublist ''audio'' (map tolower ''Turn the AUDIO up'')
   \<and> isHallucination ''Turn the AUDIO up''
   \<and> ''music'' \<in> set hallucinations_cli \<and> sublist ''music'' (map tolower ''play some music'')
   \<and> is_hallucination_cli ''play some music''"
proof -
  have a: "''audio'' \<in> set hallucinations" and m: "''music'' \<in> set hallucinations_cli"
    by (simp_all add: hallucinations_def hallucinations_cli_def)
  have sa: "sublist ''audio'' (map tolower ''Turn the AUDIO up'')"
    by code_simp
  have sm: "sublist ''music'' (map tolower ''play some music'')"
    by code_simp
  show ?thesis
    using substring_check_rejects_common_words [of "''audio''" "''Turn the AUDIO up''"]
      substring_check_rejects_common_words [of "''music''" "''play some music''"]
      a m sa sm
    by blast
qed

subsection \<open>What the member functions leave alone\<close>

lemma processAudioChunk_frame [simp]:
  "is_listening (processAudioChunk eng s) = is_listening s"
  "silence_counter (processAudioChunk eng s) = silence_counter s"
  "speech_counter (processAudioChunk eng s) = speech_counter s"
  "recorded_samples (processAudioChunk eng s) = recorded_samples s"
  by (simp_all add: processAudioChunk_def Let_def)

lemma finalizeTranscription_frame [simp]:
  "is_listening (finalizeTranscription eng s) = is_listening s"
  "silence_counter (finalizeTranscription eng s) = silence_counter s"
  "speech_counter (finalizeTranscription eng s) = speech_counter s"
  "chunk_count (finalizeTranscription eng s) = chunk_count s"
  by (simp_all add: finalizeTranscription_def Let_def)

lemma finalizeTranscription_clears [simp]:
  "audio_buffer (finalizeTranscription eng s) = []"
  "current_transcription (finalizeTranscription eng s) = []"
  "transcription_started (finalizeTranscription eng s) = False"
  "recorded_samples (finalizeTranscription eng s) = 0"
  by (simp_all add: finalizeTranscription_def Let_def)

lemma listening_frame_chunks_counters:
  "silence_counter (listening_frame_chunks eng s f)
     = (if vad_result f = - 2 then silence_counter s + 1 else 0)"
  "speech_counter (listening_frame_chunks eng s f)
     = (if vad_result f = - 2 then speech_counter s else speech_counter s + 1)"
  "is_listening (listening_frame_chunks eng s f) = is_listening s"
  by (simp_all add: listening_frame_chunks_def Let_def)

lemma listening_frame_counters:
  "silence_counter (listening_frame eng s f)
     = (if vad_result f = - 2 then silence_counter s + 1 else 0)"
  "speech_counter (listening_frame eng s f)
     = (if vad_result f = - 2 then speech_counter s else speech_counter s + 1)"
  by (simp_all add: listening_frame_def Let_def listening_frame_chunks_counters)

subsection \<open>The counters of a silent frame\<close>




text \<open>\<open>silence_counter\<close> never leaves the range \<open>0 .. 30\<close>, so its increment cannot overflow.\<close>

lemma silence_counter_step:
  assumes "0 \<le> silence_counter s" and "silence_counter s \<le> 30"
    and "is_listening s \<longrightarrow> silence_counter s < 30"
  shows "0 \<le> silence_counter (startStreaming_step eng s f)
         \<and> silence_counter (startStreaming_step eng s f) \<le> 30
         \<and> (is_listening (startStreaming_step eng s f)
              \<longrightarrow> silence_counter (startStreaming_step eng s f) < 30)"
  using assms
  by (auto simp add: startStreaming_step_def hotword_detected_def listening_frame_counters
      listening_frame_def Let_def listening_frame_chunks_counters SILENCE_THRESHOLD_def)

lemma silence_counter_bounded:
  "0 \<le> silence_counter (startStreaming eng initial fs)
   \<and> silence_counter (startStreaming eng initial fs) \<le> 30
   \<and> (is_listening (startStreaming eng initial fs)
        \<longrightarrow> silence_counter (startStreaming eng initial fs) < 30)"
proof (induction fs rule: rev_induct)
  case Nil
  show ?case by (simp add: startStreaming_def initial_def)
next
  case (snoc f fs)
  have "startStreaming eng initial (fs @ [f])
          = startStreaming_step eng (startStreaming eng initial fs) f"
    by (simp add: startStreaming_def)
  then show ?case
    using silence_counter_step [of "startStreaming eng initial fs" eng f] snoc by simp
qed

subsection \<open>One call of \<open>processAudioChunk\<close>\<close>

lemma processAudioChunk_short:
  "length (audio_buffer s) < TRANSCRIPTION_CHUNK_SIZE \<Longrightarrow> processAudioChunk eng s = s"
  by (simp add: processAudioChunk_def)

lemma processAudioChunk_skipped:
  assumes "TRANSCRIPTION_CHUNK_SIZE \<le> length (audio_buffer s)"
    and "\<not> hasSubstantialSpeech (take TRANSCRIPTION_CHUNK_SIZE (audio_buffer s))"
  shows "processAudioChunk eng s =
           s\<lparr>audio_buffer :=
                drop (TRANSCRIPTION_CHUNK_SIZE - skipped_overlap eng) (audio_buffer s),
             history := history s @ [ChunkSkipped (take TRANSCRIPTION_CHUNK_SIZE (audio_buffer s))
                                      (skipped_overlap eng)]\<rparr>"
  using assms by (simp add: processAudioChunk_def Let_def)

lemma processAudioChunk_transcribed:
  assumes "TRANSCRIPTION_CHUNK_SIZE \<le> length (audio_buffer s)"
    and "hasSubstantialSpeech (take TRANSCRIPTION_CHUNK_SIZE (audio_buffer s))"
  shows "audio_buffer (processAudioChunk eng s) =
           drop (TRANSCRIPTION_CHUNK_SIZE
                   - (if chunk_count s = 0 then first_overlap eng else later_overlap eng))
             (audio_buffer s)"
    and "history (processAudioChunk eng s) =
           history s @ [ChunkTranscribed (take TRANSCRIPTION_CHUNK_SIZE (audio_buffer s))
                      (if chunk_count s = 0 then first_overlap eng else later_overlap eng)]"
    and "chunk_count (processAudioChunk eng s) = chunk_count s + 1"
    and "invocations (processAudioChunk eng s) = invocations s + 1"
  using assms by (simp_all add: processAudioChunk_def Let_def)

lemma overlap_le_chunk:
  "skipped_overlap eng \<le> TRANSCRIPTION_CHUNK_SIZE"
  "first_overlap eng \<le> TRANSCRIPTION_CHUNK_SIZE"
  "later_overlap eng \<le> TRANSCRIPTION_CHUNK_SIZE"
  by (cases eng; simp add: TRANSCRIPTION_CHUNK_SIZE_def)+

lemma overlap_order:
  "later_overlap eng \<le> first_overlap eng"
  "first_overlap eng < skipped_overlap eng"
  by (cases eng; simp add: TRANSCRIPTION_CHUNK_SIZE_def)+

lemma events_since_append [simp]:
  "history s' = history s @ new \<Longrightarrow> events_since s s' = new"
  by (simp add: events_since_def)

text \<open>The definitions with which a run on concrete frames is evaluated.\<close>

lemmas session_eval_core =
  startStreaming_def startStreaming_step_def initial_def hotword_detected_def
  trigger_frame_def speech_frame_def silence_frame_def events_since_def
  listening_frame_def listening_frame_chunks_def processAudioChunk_def
  finalizeTranscription_def Let_def
  SILENCE_THRESHOLD_def MIN_SPEECH_LENGTH_def TRANSCRIPTION_CHUNK_SIZE_def
  gate_on_stretches

lemmas session_eval =
  session_eval_core transcribeWithWhisper_def transcribeWithWhisper_capi_def

lemma hello_engine_text: "transcribeWithWhisper hello_engine k audio = ''hello''"
  unfolding transcribeWithWhisper_def hello_engine_def by (simp, code_simp)

lemma quiet_engine_text: "transcribeWithWhisper quiet_engine k audio = []"
  by (simp add: transcribeWithWhisper_def quiet_engine_def transcribeWithWhisper_capi_def)

subsection \<open>Replaying extractions\<close>

lemma extract_in_order_append:
  "extract_in_order stream (a @ b) =
     (case extract_in_order stream a of None \<Rightarrow> None | Some r \<Rightarrow> extract_in_order r b)"
  by (induction stream a rule: extract_in_order.induct) simp_all

lemma extract_in_order_extend:
  "extract_in_order stream es = Some r \<Longrightarrow>
     extract_in_order (stream @ rest) es = Some (r @ rest)"
proof (induction stream es arbitrary: r rule: extract_in_order.induct)
  case (2 stream chunk overlap es)
  then show ?case by (auto split: if_splits)
next
  case (3 stream chunk overlap es)
  then show ?case by (auto split: if_splits)
qed simp_all

lemma extract_in_order_distinct:
  "extract_in_order stream es = Some r \<Longrightarrow> distinct_portions es @ r = stream"
proof (induction stream es arbitrary: r rule: extract_in_order.induct)
  case (2 stream chunk overlap es)
  then have "distinct_portions es @ r = drop (TRANSCRIPTION_CHUNK_SIZE - overlap) stream"
    and "chunk = take TRANSCRIPTION_CHUNK_SIZE stream"
    by (auto split: if_splits)
  then show ?case by (simp add: min_def)
next
  case (3 stream chunk overlap es)
  then have "distinct_portions es @ r = drop (TRANSCRIPTION_CHUNK_SIZE - overlap) stream"
    and "chunk = take TRANSCRIPTION_CHUNK_SIZE stream"
    by (auto split: if_splits)
  then show ?case by (simp add: min_def)
qed simp_all

text \<open>
  What one call of \<open>processAudioChunk\<close> adds to the history replays on the buffer it found and
  leaves the buffer it returns.
\<close>

lemma processAudioChunk_extract:
  "\<exists>new. history (processAudioChunk eng s) = history s @ new
         \<and> extract_in_order (audio_buffer s) new = Some (audio_buffer (processAudioChunk eng s))"
proof (cases "TRANSCRIPTION_CHUNK_SIZE \<le> length (audio_buffer s)")
  case False
  then show ?thesis by (simp add: processAudioChunk_short)
next
  case long: True
  show ?thesis
  proof (cases "hasSubstantialSpeech (take TRANSCRIPTION_CHUNK_SIZE (audio_buffer s))")
    case False
    show ?thesis
      using long by (simp add: processAudioChunk_skipped [OF long False])
  next
    case True
    show ?thesis
      using long by (simp add: processAudioChunk_transcribed [OF long True])
  qed
qed

lemma listening_frame_chunks_extract:
  "\<exists>new. history (listening_frame_chunks eng s f) = history s @ new
         \<and> extract_in_order (audio_buffer s @ samples f) new
             = Some (audio_buffer (listening_frame_chunks eng s f))"
proof -
  define s1 where "s1 = s\<lparr>audio_buffer := audio_buffer s @ samples f,
    recorded_samples := recorded_samples s + int (length (samples f))\<rparr>"
  define s2 where "s2 = (if vad_result f = - 2 then s1\<lparr>silence_counter := silence_counter s1 + 1\<rparr>
    else let s1' = s1\<lparr>silence_counter := 0, speech_counter := speech_counter s1 + 1\<rparr>
         in if speech_counter s1' > MIN_SPEECH_LENGTH div 2048
            then processAudioChunk eng s1' else s1')"
  define s3 where "s3 = (if length (audio_buffer s2) \<ge> TRANSCRIPTION_CHUNK_SIZE
    then processAudioChunk eng s2 else s2)"
  have s3: "listening_frame_chunks eng s f = s3"
    by (simp add: listening_frame_chunks_def s1_def s2_def s3_def Let_def)
  have a: "\<exists>new. history s2 = history s @ new
             \<and> extract_in_order (audio_buffer s @ samples f) new = Some (audio_buffer s2)"
  proof (cases "vad_result f \<noteq> - 2 \<and> speech_counter s + 1 > MIN_SPEECH_LENGTH div 2048")
    case True
    then have "s2 = processAudioChunk eng
                 (s1\<lparr>silence_counter := 0, speech_counter := speech_counter s1 + 1\<rparr>)"
      by (simp add: s2_def s1_def Let_def)
    then show ?thesis
      using processAudioChunk_extract
        [of eng "s1\<lparr>silence_counter := 0, speech_counter := speech_counter s1 + 1\<rparr>"]
      by (simp add: s1_def)
  next
    case False
    then have "history s2 = history s" and "audio_buffer s2 = audio_buffer s @ samples f"
      by (auto simp add: s2_def s1_def Let_def)
    then show ?thesis by simp
  qed
  have b: "\<exists>new. history s3 = history s2 @ new
             \<and> extract_in_order (audio_buffer s2) new = Some (audio_buffer s3)"
    using processAudioChunk_extract [of eng s2] by (simp add: s3_def)
  from a obtain n1 where n1: "history s2 = history s @ n1"
    "extract_in_order (audio_buffer s @ samples f) n1 = Some (audio_buffer s2)"
    by blast
  from b obtain n2 where n2: "history s3 = history s2 @ n2"
    "extract_in_order (audio_buffer s2) n2 = Some (audio_buffer s3)"
    by blast
  have "history s3 = history s @ (n1 @ n2)"
    using n1 n2 by simp
  moreover have "extract_in_order (audio_buffer s @ samples f) (n1 @ n2) = Some (audio_buffer s3)"
    using n1 n2 by (simp add: extract_in_order_append)
  ultimately show ?thesis
    unfolding s3 by blast
qed

subsection \<open>The frames of a cycle\<close>

lemma listening_frame_cases:
  "listening_frame eng s f =
     (if SILENCE_THRESHOLD \<le> silence_counter (listening_frame_chunks eng s f)
         \<or> 16000 * 60 < length (audio_buffer (listening_frame_chunks eng s f))
      then (finalizeTranscription eng (listening_frame_chunks eng s f))\<lparr>is_listening := False\<rparr>
      else listening_frame_chunks eng s f)"
  by (simp add: listening_frame_def Let_def)

lemma still_listening:
  assumes "is_listening s" and "is_listening (startStreaming_step eng s f)"
  shows "startStreaming_step eng s f = listening_frame_chunks eng s f"
  using assms
  by (simp add: startStreaming_step_def listening_frame_cases split: if_splits)

lemma within_cycle_listening: "within_cycle eng s fs \<Longrightarrow> is_listening s"
  by (cases fs) simp_all

lemma startStreaming_Cons:
  "startStreaming eng s (f # fs) = startStreaming eng (startStreaming_step eng s f) fs"
  by (simp add: startStreaming_def)

lemma startStreaming_snoc:
  "startStreaming eng s (fs @ [f]) = startStreaming_step eng (startStreaming eng s fs) f"
  by (simp add: startStreaming_def)

lemma within_cycle_end:
  "within_cycle eng s fs \<Longrightarrow> is_listening (startStreaming eng s fs)"
  by (induction fs arbitrary: s) (simp_all add: startStreaming_def)

text \<open>What ends a cycle adds no chunk to the history.\<close>

lemma finalizeTranscription_history:
  "\<exists>fin. history (finalizeTranscription eng t) = history t @ fin \<and> overlaps fin = []"
  by (simp add: finalizeTranscription_def Let_def)

lemma listening_step_history:
  assumes "is_listening t"
  shows "\<exists>fin. history (startStreaming_step eng t f)
                 = history (listening_frame_chunks eng t f) @ fin
               \<and> overlaps fin = []"
  using assms finalizeTranscription_history [of eng "listening_frame_chunks eng t f"]
  by (simp add: startStreaming_step_def listening_frame_cases)

lemma no_chunks:
  assumes "overlaps fin = []"
  shows "transcribed_overlaps fin = []" and "skipped_overlaps fin = []"
    and "distinct_portions fin = []" and "extract_in_order stream fin = Some stream"
  using assms by (induction fin rule: overlaps.induct) simp_all

lemma within_cycle_extract:
  "within_cycle eng s fs \<Longrightarrow>
     \<exists>new. history (startStreaming eng s fs) = history s @ new
          \<and> extract_in_order (audio_buffer s @ concat (map samples fs)) new
              = Some (audio_buffer (startStreaming eng s fs))"
proof (induction fs arbitrary: s)
  case Nil
  then show ?case by (simp add: startStreaming_def)
next
  case (Cons f fs)
  let ?s1 = "startStreaming_step eng s f"
  have l: "is_listening s" and w: "within_cycle eng ?s1 fs"
    using Cons.prems by simp_all
  have l1: "is_listening ?s1"
    using w by (rule within_cycle_listening)
  have s1: "?s1 = listening_frame_chunks eng s f"
    using l l1 by (rule still_listening)
  obtain n1 where n1: "history ?s1 = history s @ n1"
    "extract_in_order (audio_buffer s @ samples f) n1 = Some (audio_buffer ?s1)"
    using listening_frame_chunks_extract [of eng s f] unfolding s1 by blast
  obtain n2 where n2: "history (startStreaming eng ?s1 fs) = history ?s1 @ n2"
    "extract_in_order (audio_buffer ?s1 @ concat (map samples fs)) n2
       = Some (audio_buffer (startStreaming eng ?s1 fs))"
    using Cons.IH [OF w] by blast
  have e1: "extract_in_order ((audio_buffer s @ samples f) @ concat (map samples fs)) n1
              = Some (audio_buffer ?s1 @ concat (map samples fs))"
    using n1(2) by (rule extract_in_order_extend)
  have "history (startStreaming eng s (f # fs)) = history s @ (n1 @ n2)"
    using n1(1) n2(1) by (simp add: startStreaming_Cons)
  moreover have "extract_in_order (audio_buffer s @ concat (map samples (f # fs))) (n1 @ n2)
                   = Some (audio_buffer (startStreaming eng s (f # fs)))"
    using e1 n2(2) by (simp add: extract_in_order_append startStreaming_Cons)
  ultimately show ?case by blast
qed

text \<open>The same up to and including the frame that may end the cycle.\<close>

lemma cycle_extract:
  assumes "within_cycle eng s fs"
  shows "\<exists>new. history (startStreaming eng s (fs @ [f])) = history s @ new
           \<and> extract_in_order (audio_buffer s @ concat (map samples (fs @ [f]))) new
               = Some (audio_buffer (listening_frame_chunks eng (startStreaming eng s fs) f))"
proof -
  let ?s1 = "startStreaming eng s fs"
  let ?s3 = "listening_frame_chunks eng ?s1 f"
  obtain n1 where n1: "history ?s1 = history s @ n1"
    "extract_in_order (audio_buffer s @ concat (map samples fs)) n1 = Some (audio_buffer ?s1)"
    using within_cycle_extract [OF assms] by blast
  obtain n2 where n2: "history ?s3 = history ?s1 @ n2"
    "extract_in_order (audio_buffer ?s1 @ samples f) n2 = Some (audio_buffer ?s3)"
    using listening_frame_chunks_extract [of eng ?s1 f] by blast
  obtain fin where fin: "history (startStreaming_step eng ?s1 f) = history ?s3 @ fin"
    "overlaps fin = []"
    using listening_step_history [OF within_cycle_end [OF assms], of eng f] by blast
  have e1: "extract_in_order ((audio_buffer s @ concat (map samples fs)) @ samples f) n1
              = Some (audio_buffer ?s1 @ samples f)"
    using n1(2) by (rule extract_in_order_extend)
  have "history (startStreaming eng s (fs @ [f])) = history s @ (n1 @ n2 @ fin)"
    using n1(1) n2(1) fin(1) by (simp add: startStreaming_snoc)
  moreover have "extract_in_order (audio_buffer s @ concat (map samples (fs @ [f])))
                   (n1 @ n2 @ fin) = Some (audio_buffer ?s3)"
    using e1 n2(2) no_chunks(4) [OF fin(2)] by (simp add: extract_in_order_append)
  ultimately show ?thesis by blast
qed

text \<open>One extraction: the chunk is the front of the buffer, and the overlap stays.\<close>

lemma processAudioChunk_overlap_stays:
  assumes "TRANSCRIPTION_CHUNK_SIZE \<le> length (audio_buffer t)"
  shows "\<exists>overlap. overlaps (events_since t (processAudioChunk eng t)) = [overlap]
           \<and> overlap \<le> TRANSCRIPTION_CHUNK_SIZE
           \<and> audio_buffer (processAudioChunk eng t)
               = drop (TRANSCRIPTION_CHUNK_SIZE - overlap) (audio_buffer t)
           \<and> take overlap (audio_buffer (processAudioChunk eng t))
               = drop (TRANSCRIPTION_CHUNK_SIZE - overlap)
                   (take TRANSCRIPTION_CHUNK_SIZE (audio_buffer t))"
proof -
  have td: "take overlap (drop (TRANSCRIPTION_CHUNK_SIZE - overlap) (audio_buffer t))
              = drop (TRANSCRIPTION_CHUNK_SIZE - overlap)
                  (take TRANSCRIPTION_CHUNK_SIZE (audio_buffer t))"
    if "overlap \<le> TRANSCRIPTION_CHUNK_SIZE" for overlap
    using that by (simp add: take_drop)
  show ?thesis
  proof (cases "hasSubstantialSpeech (take TRANSCRIPTION_CHUNK_SIZE (audio_buffer t))")
    case False
    show ?thesis
      using td [OF overlap_le_chunk(1) [of eng]] overlap_le_chunk(1) [of eng]
      by (simp add: processAudioChunk_skipped [OF assms False])
  next
    case True
    let ?o = "if chunk_count t = 0 then first_overlap eng else later_overlap eng"
    have le: "?o \<le> TRANSCRIPTION_CHUNK_SIZE"
      by (simp add: overlap_le_chunk)
    show ?thesis
      using td [OF le] le
      by (simp only: processAudioChunk_transcribed [OF assms True] events_since_append
          overlaps.simps) blast
  qed
qed

text \<open>
  Claim C1. Throughout a cycle the chunks are taken from the front of the buffer in the order
  of the audio. Replayed on the captured stream (what the buffer held at the start of the
  observation followed by the frames fed since), every chunk of the history is the first
  \<open>TRANSCRIPTION_CHUNK_SIZE\<close> samples of what the earlier chunks left, the overlap of a chunk
  being the front of what the next chunk is taken from, and what is left at the end is the
  buffer; the distinct portions of the chunks, followed by the samples still in the buffer, are
  the captured stream, every sample once. The same holds up to and including the frame that
  may end the cycle, for the buffer as it is before it is finalised. The last conjunct is the
  single extraction: the chunk is the front of the buffer, the overlap kept is the tail of the
  chunk, and it is the front of the buffer afterwards.
\<close>

theorem chunks_follow_the_stream:
  assumes "within_cycle eng s fs"
  shows "extract_in_order (audio_buffer s @ concat (map samples fs))
             (events_since s (startStreaming eng s fs))
           = Some (audio_buffer (startStreaming eng s fs))
         \<and> distinct_portions (events_since s (startStreaming eng s fs))
               @ audio_buffer (startStreaming eng s fs)
             = audio_buffer s @ concat (map samples fs)
         \<and> extract_in_order (audio_buffer s @ concat (map samples (fs @ [f])))
             (events_since s (startStreaming eng s (fs @ [f])))
           = Some (audio_buffer (listening_frame_chunks eng (startStreaming eng s fs) f))
         \<and> distinct_portions (events_since s (startStreaming eng s (fs @ [f])))
               @ audio_buffer (listening_frame_chunks eng (startStreaming eng s fs) f)
             = audio_buffer s @ concat (map samples (fs @ [f]))
         \<and> (TRANSCRIPTION_CHUNK_SIZE \<le> length (audio_buffer t) \<longrightarrow>
               extract_in_order (audio_buffer t) (events_since t (processAudioChunk eng t))
                 = Some (audio_buffer (processAudioChunk eng t))
               \<and> (\<exists>overlap.
                     overlaps (events_since t (processAudioChunk eng t)) = [overlap]
                     \<and> overlap \<le> TRANSCRIPTION_CHUNK_SIZE
                     \<and> audio_buffer (processAudioChunk eng t)
                         = drop (TRANSCRIPTION_CHUNK_SIZE - overlap) (audio_buffer t)
                     \<and> take overlap (audio_buffer (processAudioChunk eng t))
                         = drop (TRANSCRIPTION_CHUNK_SIZE - overlap)
                             (take TRANSCRIPTION_CHUNK_SIZE (audio_buffer t))))"
proof -
  obtain new where new: "history (startStreaming eng s fs) = history s @ new"
    "extract_in_order (audio_buffer s @ concat (map samples fs)) new
       = Some (audio_buffer (startStreaming eng s fs))"
    using within_cycle_extract [OF assms] by blast
  have e: "events_since s (startStreaming eng s fs) = new"
    using new(1) by simp
  obtain new' where new': "history (startStreaming eng s (fs @ [f])) = history s @ new'"
    "extract_in_order (audio_buffer s @ concat (map samples (fs @ [f]))) new'
       = Some (audio_buffer (listening_frame_chunks eng (startStreaming eng s fs) f))"
    using cycle_extract [OF assms, of f] by blast
  have e': "events_since s (startStreaming eng s (fs @ [f])) = new'"
    using new'(1) by simp
  obtain one where one: "history (processAudioChunk eng t) = history t @ one"
    "extract_in_order (audio_buffer t) one = Some (audio_buffer (processAudioChunk eng t))"
    using processAudioChunk_extract [of eng t] by blast
  have e1: "events_since t (processAudioChunk eng t) = one"
    using one(1) by simp
  show ?thesis
    unfolding e e'
    using new(2) extract_in_order_distinct [OF new(2)]
      new'(2) extract_in_order_distinct [OF new'(2)]
      one(2) [folded e1] processAudioChunk_overlap_stays [of t eng]
    by blast
qed

theorem chunks_follow_the_stream_witness:
  "within_cycle quiet_engine (hotword_detected initial) five_loud_frames
   \<and> extract_in_order (concat (map samples five_loud_frames))
        [ChunkTranscribed (replicate 48000 1000) 1500]
       = Some (replicate 33500 1000)
   \<and> distinct_portions [ChunkTranscribed (replicate 48000 1000) 1500] @ replicate 33500 1000
       = concat (map samples five_loud_frames)
   \<and> extract_in_order (concat (map samples six_loud_frames))
        [ChunkTranscribed (replicate 48000 1000) 1500,
         ChunkTranscribed (replicate 48000 1000) 750]
       = Some (replicate 2250 1000)
   \<and> distinct_portions
        [ChunkTranscribed (replicate 48000 1000) 1500,
         ChunkTranscribed (replicate 48000 1000) 750] @ replicate 2250 1000
       = concat (map samples six_loud_frames)
   \<and> TRANSCRIPTION_CHUNK_SIZE
       \<le> length (audio_buffer (hotword_detected initial\<lparr>audio_buffer := replicate 49500 1000\<rparr>))
   \<and> (\<exists>overlap.
         overlaps
           (events_since (hotword_detected initial\<lparr>audio_buffer := replicate 49500 1000\<rparr>)
              (processAudioChunk quiet_engine
                 (hotword_detected initial\<lparr>audio_buffer := replicate 49500 1000\<rparr>)))
           = [overlap]
         \<and> take overlap
             (audio_buffer
                (processAudioChunk quiet_engine
                   (hotword_detected initial\<lparr>audio_buffer := replicate 49500 1000\<rparr>)))
           = drop (TRANSCRIPTION_CHUNK_SIZE - overlap)
               (take TRANSCRIPTION_CHUNK_SIZE
                  (audio_buffer (hotword_detected initial\<lparr>audio_buffer := replicate 49500 1000\<rparr>))))"
proof -
  let ?s = "hotword_detected initial"
  let ?t = "hotword_detected initial\<lparr>audio_buffer := replicate 49500 1000\<rparr>"
  let ?f = "speech_frame 16000 1000"
  have w: "within_cycle quiet_engine ?s five_loud_frames"
    by (simp add: five_loud_frames_def quiet_engine_def session_eval)
  have e5: "events_since ?s (startStreaming quiet_engine ?s five_loud_frames)
            = [ChunkTranscribed (replicate 48000 1000) 1500]"
    by (simp add: five_loud_frames_def quiet_engine_def session_eval replicate_add [symmetric])
  have b5: "audio_buffer (startStreaming quiet_engine ?s five_loud_frames) = replicate 33500 1000"
    by (simp add: five_loud_frames_def quiet_engine_def session_eval replicate_add [symmetric])
  have e6: "events_since ?s (startStreaming quiet_engine ?s (five_loud_frames @ [?f]))
            = [ChunkTranscribed (replicate 48000 1000) 1500,
               ChunkTranscribed (replicate 48000 1000) 750]"
    by (simp add: five_loud_frames_def quiet_engine_def session_eval replicate_add [symmetric])
  have c6: "audio_buffer
              (listening_frame_chunks quiet_engine
                 (startStreaming quiet_engine ?s five_loud_frames) ?f)
            = replicate 2250 1000"
    by (simp add: five_loud_frames_def quiet_engine_def session_eval replicate_add [symmetric])
  have a: "audio_buffer ?s @ xs = xs" for xs
    by (simp add: hotword_detected_def)
  have t: "TRANSCRIPTION_CHUNK_SIZE \<le> length (audio_buffer ?t)"
    by (simp add: TRANSCRIPTION_CHUNK_SIZE_def)
  note th = chunks_follow_the_stream [OF w, of ?f ?t, unfolded e5 b5 e6 c6 a,
      folded six_loud_frames_def]
  show ?thesis
    using th w t by blast
qed

subsection \<open>The overlaps of a cycle\<close>

lemma transcribed_overlaps_append:
  "transcribed_overlaps (a @ b) = transcribed_overlaps a @ transcribed_overlaps b"
  by (induction a rule: transcribed_overlaps.induct) simp_all

lemma skipped_overlaps_append:
  "skipped_overlaps (a @ b) = skipped_overlaps a @ skipped_overlaps b"
  by (induction a rule: skipped_overlaps.induct) simp_all

lemma overlaps_as_counted_Nil [simp]: "overlaps_as_counted eng c []"
  by (simp add: overlaps_as_counted_def)

lemma overlaps_as_counted_append:
  assumes "0 \<le> c" and "overlaps_as_counted eng c a"
    and "overlaps_as_counted eng (c + int (length (transcribed_overlaps a))) b"
  shows "overlaps_as_counted eng c (a @ b)"
proof -
  let ?ka = "length (transcribed_overlaps a)" and ?kb = "length (transcribed_overlaps b)"
  have n: "nat (c + int ?ka) = nat c + ?ka"
    using assms(1) by simp
  have "[nat c ..< nat c + ?ka + ?kb] = [nat c ..< nat c + ?ka] @ [nat c + ?ka ..< nat c + ?ka + ?kb]"
    by (rule upt_add_eq_append) simp
  then have "map (chunk_overlap eng) [nat c ..< nat c + (?ka + ?kb)]
               = transcribed_overlaps a @ transcribed_overlaps b"
    using assms(2,3) unfolding overlaps_as_counted_def n
    by (simp add: add.assoc)
  then show ?thesis
    using assms(2,3)
    by (simp add: overlaps_as_counted_def transcribed_overlaps_append skipped_overlaps_append)
qed

lemma processAudioChunk_overlaps:
  assumes "0 \<le> chunk_count s"
  shows "\<exists>new. history (processAudioChunk eng s) = history s @ new
           \<and> chunk_count (processAudioChunk eng s)
               = chunk_count s + int (length (transcribed_overlaps new))
           \<and> overlaps_as_counted eng (chunk_count s) new"
proof (cases "TRANSCRIPTION_CHUNK_SIZE \<le> length (audio_buffer s)")
  case False
  then show ?thesis by (simp add: processAudioChunk_short)
next
  case long: True
  show ?thesis
  proof (cases "hasSubstantialSpeech (take TRANSCRIPTION_CHUNK_SIZE (audio_buffer s))")
    case False
    show ?thesis
      by (simp add: processAudioChunk_skipped [OF long False] overlaps_as_counted_def)
  next
    case True
    have "nat (chunk_count s) = 0 \<longleftrightarrow> chunk_count s = 0"
      using assms by simp
    then show ?thesis
      by (simp add: processAudioChunk_transcribed [OF long True] overlaps_as_counted_def
          chunk_overlap_def)
  qed
qed

lemma listening_frame_chunks_overlaps:
  assumes "0 \<le> chunk_count s"
  shows "\<exists>new. history (listening_frame_chunks eng s f) = history s @ new
           \<and> chunk_count (listening_frame_chunks eng s f)
               = chunk_count s + int (length (transcribed_overlaps new))
           \<and> overlaps_as_counted eng (chunk_count s) new"
proof -
  define s1 where "s1 = s\<lparr>audio_buffer := audio_buffer s @ samples f,
    recorded_samples := recorded_samples s + int (length (samples f))\<rparr>"
  define s2 where "s2 = (if vad_result f = - 2 then s1\<lparr>silence_counter := silence_counter s1 + 1\<rparr>
    else let s1' = s1\<lparr>silence_counter := 0, speech_counter := speech_counter s1 + 1\<rparr>
         in if speech_counter s1' > MIN_SPEECH_LENGTH div 2048
            then processAudioChunk eng s1' else s1')"
  define s3 where "s3 = (if length (audio_buffer s2) \<ge> TRANSCRIPTION_CHUNK_SIZE
    then processAudioChunk eng s2 else s2)"
  have s3: "listening_frame_chunks eng s f = s3"
    by (simp add: listening_frame_chunks_def s1_def s2_def s3_def Let_def)
  have a: "\<exists>new. history s2 = history s @ new
             \<and> chunk_count s2 = chunk_count s + int (length (transcribed_overlaps new))
             \<and> overlaps_as_counted eng (chunk_count s) new"
  proof (cases "vad_result f \<noteq> - 2 \<and> speech_counter s + 1 > MIN_SPEECH_LENGTH div 2048")
    case True
    then have "s2 = processAudioChunk eng
                 (s1\<lparr>silence_counter := 0, speech_counter := speech_counter s1 + 1\<rparr>)"
      by (simp add: s2_def s1_def Let_def)
    then show ?thesis
      using assms processAudioChunk_overlaps
        [of "s1\<lparr>silence_counter := 0, speech_counter := speech_counter s1 + 1\<rparr>" eng]
      by (simp add: s1_def)
  next
    case False
    then have "history s2 = history s" and "chunk_count s2 = chunk_count s"
      by (auto simp add: s2_def s1_def Let_def)
    then show ?thesis by simp
  qed
  then obtain n1 where n1: "history s2 = history s @ n1"
    "chunk_count s2 = chunk_count s + int (length (transcribed_overlaps n1))"
    "overlaps_as_counted eng (chunk_count s) n1"
    by blast
  have c2: "0 \<le> chunk_count s2"
    using assms n1(2) by simp
  have "\<exists>new. history s3 = history s2 @ new
          \<and> chunk_count s3 = chunk_count s2 + int (length (transcribed_overlaps new))
          \<and> overlaps_as_counted eng (chunk_count s2) new"
    using processAudioChunk_overlaps [OF c2, of eng] by (simp add: s3_def)
  then obtain n2 where n2: "history s3 = history s2 @ n2"
    "chunk_count s3 = chunk_count s2 + int (length (transcribed_overlaps n2))"
    "overlaps_as_counted eng (chunk_count s2) n2"
    by blast
  have "history s3 = history s @ (n1 @ n2)"
    using n1 n2 by simp
  moreover have "chunk_count s3 = chunk_count s + int (length (transcribed_overlaps (n1 @ n2)))"
    using n1 n2 by (simp add: transcribed_overlaps_append)
  moreover have "overlaps_as_counted eng (chunk_count s) (n1 @ n2)"
    using assms n1(3) n2(3) unfolding n1(2) by (rule overlaps_as_counted_append)
  ultimately show ?thesis
    unfolding s3 by blast
qed

lemma within_cycle_overlaps:
  "within_cycle eng s fs \<Longrightarrow> 0 \<le> chunk_count s \<Longrightarrow>
     \<exists>new. history (startStreaming eng s fs) = history s @ new
          \<and> chunk_count (startStreaming eng s fs)
              = chunk_count s + int (length (transcribed_overlaps new))
          \<and> overlaps_as_counted eng (chunk_count s) new"
proof (induction fs arbitrary: s)
  case Nil
  then show ?case by (simp add: startStreaming_def)
next
  case (Cons f fs)
  let ?s1 = "startStreaming_step eng s f"
  have l: "is_listening s" and w: "within_cycle eng ?s1 fs"
    using Cons.prems by simp_all
  have l1: "is_listening ?s1"
    using w by (rule within_cycle_listening)
  have s1: "?s1 = listening_frame_chunks eng s f"
    using l l1 by (rule still_listening)
  obtain n1 where n1: "history ?s1 = history s @ n1"
    "chunk_count ?s1 = chunk_count s + int (length (transcribed_overlaps n1))"
    "overlaps_as_counted eng (chunk_count s) n1"
    using listening_frame_chunks_overlaps [OF Cons.prems(2), of eng f] unfolding s1 by blast
  have c1: "0 \<le> chunk_count ?s1"
    using Cons.prems(2) n1(2) by simp
  obtain n2 where n2: "history (startStreaming eng ?s1 fs) = history ?s1 @ n2"
    "chunk_count (startStreaming eng ?s1 fs)
       = chunk_count ?s1 + int (length (transcribed_overlaps n2))"
    "overlaps_as_counted eng (chunk_count ?s1) n2"
    using Cons.IH [OF w c1] by blast
  have "history (startStreaming eng s (f # fs)) = history s @ (n1 @ n2)"
    using n1(1) n2(1) by (simp add: startStreaming_Cons)
  moreover have "chunk_count (startStreaming eng s (f # fs))
                   = chunk_count s + int (length (transcribed_overlaps (n1 @ n2)))"
    using n1(2) n2(2) by (simp add: startStreaming_Cons transcribed_overlaps_append)
  moreover have "overlaps_as_counted eng (chunk_count s) (n1 @ n2)"
    using Cons.prems(2) n1(3) n2(3) unfolding n1(2) by (rule overlaps_as_counted_append)
  ultimately show ?case by blast
qed

text \<open>The same up to and including the frame that may end the cycle.\<close>

lemma cycle_overlaps:
  assumes "within_cycle eng s fs" and "0 \<le> chunk_count s"
  shows "\<exists>new. history (startStreaming eng s (fs @ [f])) = history s @ new
           \<and> overlaps_as_counted eng (chunk_count s) new"
proof -
  let ?s1 = "startStreaming eng s fs"
  let ?s3 = "listening_frame_chunks eng ?s1 f"
  obtain n1 where n1: "history ?s1 = history s @ n1"
    "chunk_count ?s1 = chunk_count s + int (length (transcribed_overlaps n1))"
    "overlaps_as_counted eng (chunk_count s) n1"
    using within_cycle_overlaps [OF assms] by blast
  have c1: "0 \<le> chunk_count ?s1"
    using assms(2) n1(2) by simp
  obtain n2 where n2: "history ?s3 = history ?s1 @ n2"
    "chunk_count ?s3 = chunk_count ?s1 + int (length (transcribed_overlaps n2))"
    "overlaps_as_counted eng (chunk_count ?s1) n2"
    using listening_frame_chunks_overlaps [OF c1, of eng f] by blast
  obtain fin where fin: "history (startStreaming_step eng ?s1 f) = history ?s3 @ fin"
    "overlaps fin = []"
    using listening_step_history [OF within_cycle_end [OF assms(1)], of eng f] by blast
  have "overlaps_as_counted eng (chunk_count s) (n1 @ n2)"
    using assms(2) n1(3) n2(3) unfolding n1(2) by (rule overlaps_as_counted_append)
  then have "overlaps_as_counted eng (chunk_count s) ((n1 @ n2) @ fin)"
    using no_chunks(1,2) [OF fin(2)]
    by (simp add: overlaps_as_counted_def transcribed_overlaps_append skipped_overlaps_append)
  moreover have "history (startStreaming eng s (fs @ [f])) = history s @ ((n1 @ n2) @ fin)"
    using n1(1) n2(1) fin(1) by (simp add: startStreaming_snoc)
  ultimately show ?thesis by blast
qed

lemma never_grows_chunk_overlap: "never_grows (map (chunk_overlap eng) [m ..< n])"
proof -
  have "sorted_wrt (\<lambda>i j. chunk_overlap eng j \<le> chunk_overlap eng i) [m ..< n]"
    by (rule sorted_wrt_mono_rel [OF _ sorted_wrt_upt])
      (simp add: chunk_overlap_def overlap_order)
  then show ?thesis
    by (simp add: never_grows_def sorted_wrt_map)
qed

text \<open>
  Claim C2 as stated fails: a chunk that the gate rejects keeps more overlap than a chunk that
  went to the engine before it. After the trigger, three seconds of speech and three seconds of
  silence, \<open>main.cpp\<close> has kept 1500 samples after the first chunk and 6000 after the second.
\<close>

theorem overlap_grows_after_rejection_counterexample:
  "within_cycle quiet_engine (hotword_detected initial) (loud_then_quiet @ [silence_frame 16000])
   \<and> overlaps (events_since (hotword_detected initial)
                (startStreaming quiet_engine (hotword_detected initial)
                   (loud_then_quiet @ [silence_frame 16000])))
       = [1500, 6000]
   \<and> \<not> never_grows [1500, 6000]"
  by (simp add: loud_then_quiet_def quiet_engine_def never_grows_def session_eval)

text \<open>
  Claim C2, amended. Within a cycle, from the trigger up to and including the frame that ends
  it, the overlap kept after the chunks that go to the recognition engine never grows: the
  first keeps \<open>first_overlap\<close>, every later one \<open>later_overlap\<close>, which is not larger. A
  chunk that the gate rejects keeps \<open>skipped_overlap\<close>, which is larger than both, wherever
  in the cycle it comes.
\<close>

theorem overlap_of_transcribed_chunks_never_grows:
  assumes "within_cycle eng s fs" and "chunk_count s = 0"
  shows "transcribed_overlaps (events_since s (startStreaming eng s (fs @ [f])))
           = map (chunk_overlap eng)
               [0 ..< length (transcribed_overlaps
                                (events_since s (startStreaming eng s (fs @ [f]))))]
         \<and> never_grows (transcribed_overlaps (events_since s (startStreaming eng s (fs @ [f]))))
         \<and> list_all (\<lambda>overlap. overlap = skipped_overlap eng)
             (skipped_overlaps (events_since s (startStreaming eng s (fs @ [f]))))
         \<and> later_overlap eng \<le> first_overlap eng
         \<and> first_overlap eng < skipped_overlap eng"
proof -
  obtain new where new: "history (startStreaming eng s (fs @ [f])) = history s @ new"
    "overlaps_as_counted eng (chunk_count s) new"
    using cycle_overlaps [OF assms(1), of f] assms(2) by auto
  have e: "events_since s (startStreaming eng s (fs @ [f])) = new"
    using new(1) by simp
  have t: "transcribed_overlaps new
             = map (chunk_overlap eng) [0 ..< length (transcribed_overlaps new)]"
    and k: "list_all (\<lambda>overlap. overlap = skipped_overlap eng) (skipped_overlaps new)"
    using new(2) assms(2) by (simp_all add: overlaps_as_counted_def)
  have "never_grows (transcribed_overlaps new)"
    using never_grows_chunk_overlap [of eng 0 "length (transcribed_overlaps new)"] t by simp
  then show ?thesis
    unfolding e using t k overlap_order by simp
qed

theorem overlap_of_transcribed_chunks_never_grows_witness:
  "within_cycle quiet_engine (hotword_detected initial) five_loud_frames
   \<and> chunk_count (hotword_detected initial) = 0
   \<and> transcribed_overlaps
         (events_since (hotword_detected initial)
            (startStreaming quiet_engine (hotword_detected initial) six_loud_frames))
       = [1500, 750]
   \<and> never_grows [1500, 750]
   \<and> within_cycle quiet_engine (hotword_detected initial) loud_then_quiet
   \<and> transcribed_overlaps
         (events_since (hotword_detected initial)
            (startStreaming quiet_engine (hotword_detected initial)
               (loud_then_quiet @ [silence_frame 16000])))
       = [1500]
   \<and> skipped_overlaps
         (events_since (hotword_detected initial)
            (startStreaming quiet_engine (hotword_detected initial)
               (loud_then_quiet @ [silence_frame 16000])))
       = [6000]
   \<and> list_all (\<lambda>overlap. overlap = skipped_overlap quiet_engine) [6000]
   \<and> later_overlap quiet_engine \<le> first_overlap quiet_engine
   \<and> first_overlap quiet_engine < skipped_overlap quiet_engine"
proof -
  let ?s = "hotword_detected initial"
  have w: "within_cycle quiet_engine ?s five_loud_frames"
    by (simp add: five_loud_frames_def quiet_engine_def session_eval)
  have w': "within_cycle quiet_engine ?s loud_then_quiet"
    by (simp add: loud_then_quiet_def quiet_engine_def session_eval)
  have c: "chunk_count ?s = 0"
    by (simp add: hotword_detected_def)
  have t: "transcribed_overlaps
             (events_since ?s
                (startStreaming quiet_engine ?s (five_loud_frames @ [speech_frame 16000 1000])))
           = [1500, 750]"
    by (simp add: five_loud_frames_def quiet_engine_def session_eval)
  have t': "transcribed_overlaps
              (events_since ?s
                 (startStreaming quiet_engine ?s (loud_then_quiet @ [silence_frame 16000])))
            = [1500]"
    by (simp add: loud_then_quiet_def quiet_engine_def session_eval)
  have k': "skipped_overlaps
              (events_since ?s
                 (startStreaming quiet_engine ?s (loud_then_quiet @ [silence_frame 16000])))
            = [6000]"
    by (simp add: loud_then_quiet_def quiet_engine_def session_eval)
  note th = overlap_of_transcribed_chunks_never_grows
      [OF w c, of "speech_frame 16000 1000", unfolded t, folded six_loud_frames_def]
  note th' = overlap_of_transcribed_chunks_never_grows
      [OF w' c, of "silence_frame 16000", unfolded t' k']
  have t6: "transcribed_overlaps
              (events_since ?s (startStreaming quiet_engine ?s six_loud_frames))
            = [1500, 750]"
    using t by (simp only: six_loud_frames_def)
  show ?thesis
    using th th' w w' c t6 t' k' by blast
qed

subsection \<open>The safety cut-off\<close>

lemma listening_frame_buffer_bound:
  "length (audio_buffer (listening_frame eng s f)) \<le> 16000 * 60"
  by (simp add: listening_frame_cases)

lemma startStreaming_step_buffer_bound:
  "length (audio_buffer s) \<le> 16000 * 60 \<Longrightarrow>
     length (audio_buffer (startStreaming_step eng s f)) \<le> 16000 * 60"
  using listening_frame_buffer_bound [of eng s f]
  by (simp add: startStreaming_step_def hotword_detected_def)

lemma startStreaming_buffer_bound:
  "length (audio_buffer s) \<le> 16000 * 60 \<Longrightarrow>
     length (audio_buffer (startStreaming eng s fs)) \<le> 16000 * 60"
proof (induction fs arbitrary: s)
  case Nil
  then show ?case by (simp add: startStreaming_def)
next
  case (Cons f fs)
  show ?case
    unfolding startStreaming_Cons
    by (rule Cons.IH) (rule startStreaming_step_buffer_bound [OF Cons.prems])
qed

text \<open>
  The test itself does what its message says: when, while listening, the buffer holds more than
  \<open>16000 * 60\<close> samples after the chunks of a frame have been taken, the frame ends with
  \<open>finalizeTranscription\<close> and the return to the idle state.
\<close>

lemma cutoff_branch:
  "is_listening t \<Longrightarrow>
     16000 * 60 < length (audio_buffer (listening_frame_chunks eng t f)) \<Longrightarrow>
     startStreaming_step eng t f
       = (finalizeTranscription eng (listening_frame_chunks eng t f))\<lparr>is_listening := False\<rparr>"
  by (simp add: startStreaming_step_def listening_frame_cases)

text \<open>
  What the test measures, though, is the buffer, and the buffer is not the time listened: every
  frame that fills it to a chunk has a chunk taken from it. With frames of at most 36000 samples
  (more than two seconds each) it never holds more than a chunk after a frame.
\<close>

lemma processAudioChunk_shrinks:
  assumes "TRANSCRIPTION_CHUNK_SIZE \<le> length (audio_buffer s)"
  shows "length (audio_buffer (processAudioChunk eng s)) + 36000 \<le> length (audio_buffer s)"
proof (cases "hasSubstantialSpeech (take TRANSCRIPTION_CHUNK_SIZE (audio_buffer s))")
  case False
  show ?thesis
    using assms
    by (cases eng) (simp_all add: processAudioChunk_skipped [OF assms False]
        TRANSCRIPTION_CHUNK_SIZE_def)
next
  case True
  show ?thesis
    using assms
    by (cases eng) (simp_all add: processAudioChunk_transcribed [OF assms True]
        TRANSCRIPTION_CHUNK_SIZE_def)
qed

lemma processAudioChunk_length_le:
  "length (audio_buffer (processAudioChunk eng s)) \<le> length (audio_buffer s)"
proof (cases "TRANSCRIPTION_CHUNK_SIZE \<le> length (audio_buffer s)")
  case True
  then show ?thesis using processAudioChunk_shrinks [OF True, of eng] by simp
next
  case False
  then show ?thesis by (simp add: processAudioChunk_short)
qed

lemma short_frames_never_reach_cutoff:
  assumes "length (audio_buffer s) \<le> TRANSCRIPTION_CHUNK_SIZE"
    and "length (samples f) \<le> 36000"
  shows "length (audio_buffer (listening_frame_chunks eng s f)) \<le> TRANSCRIPTION_CHUNK_SIZE"
proof -
  define s1 where "s1 = s\<lparr>audio_buffer := audio_buffer s @ samples f,
    recorded_samples := recorded_samples s + int (length (samples f))\<rparr>"
  define s2 where "s2 = (if vad_result f = - 2 then s1\<lparr>silence_counter := silence_counter s1 + 1\<rparr>
    else let s1' = s1\<lparr>silence_counter := 0, speech_counter := speech_counter s1 + 1\<rparr>
         in if speech_counter s1' > MIN_SPEECH_LENGTH div 2048
            then processAudioChunk eng s1' else s1')"
  define s3 where "s3 = (if length (audio_buffer s2) \<ge> TRANSCRIPTION_CHUNK_SIZE
    then processAudioChunk eng s2 else s2)"
  have s3: "listening_frame_chunks eng s f = s3"
    by (simp add: listening_frame_chunks_def s1_def s2_def s3_def Let_def)
  have "length (audio_buffer s2) \<le> length (audio_buffer s) + length (samples f)"
    using processAudioChunk_length_le
      [of eng "s1\<lparr>silence_counter := 0, speech_counter := speech_counter s1 + 1\<rparr>"]
    by (simp add: s2_def s1_def Let_def)
  then have b2: "length (audio_buffer s2) \<le> TRANSCRIPTION_CHUNK_SIZE + 36000"
    using assms by simp
  show ?thesis
  proof (cases "TRANSCRIPTION_CHUNK_SIZE \<le> length (audio_buffer s2)")
    case True
    then show ?thesis
      using processAudioChunk_shrinks [OF True, of eng] b2 by (simp add: s3 s3_def)
  next
    case False
    then show ?thesis by (simp add: s3 s3_def)
  qed
qed

text \<open>
  So with such frames the test of the cut-off is never true: a frame of the listening state ends
  the cycle through the silence threshold or not at all.
\<close>

lemma cutoff_never_fires:
  assumes "length (audio_buffer s) \<le> TRANSCRIPTION_CHUNK_SIZE"
    and "length (samples f) \<le> 36000"
  shows "listening_frame eng s f =
           (if SILENCE_THRESHOLD \<le> silence_counter (listening_frame_chunks eng s f)
            then (finalizeTranscription eng (listening_frame_chunks eng s f))\<lparr>is_listening := False\<rparr>
            else listening_frame_chunks eng s f)"
  using short_frames_never_reach_cutoff [OF assms, of eng]
  by (simp add: listening_frame_cases TRANSCRIPTION_CHUNK_SIZE_def)

lemma listening_frame_chunks_recorded:
  "recorded_samples (listening_frame_chunks eng s f)
     = recorded_samples s + int (length (samples f))"
  by (simp add: listening_frame_chunks_def Let_def)

lemma speech_frame_step:
  assumes "is_listening s"
    and "length (audio_buffer s) \<le> TRANSCRIPTION_CHUNK_SIZE"
    and "vad_result f \<noteq> - 2"
    and "length (samples f) \<le> 36000"
  shows "startStreaming_step eng s f = listening_frame_chunks eng s f"
  using assms
  by (simp add: startStreaming_step_def cutoff_never_fires listening_frame_chunks_counters
      SILENCE_THRESHOLD_def)

text \<open>
  Claim C5 does not hold, in either file. The comment on the cut-off reads "Don't listen
  indefinitely (max 60 seconds)" and its message "Maximum listening time reached (60s)", but
  while the speaker goes on and the frames are of at most 36000 samples, the object listens on
  for as long as frames come: from a listening state whose buffer holds at most a chunk, after
  any number of frames that the voice-activity detector does not take for silence the object
  is still listening, as it was before each of the frames; every turn of the loop was the
  appending of the frame and the taking of chunks only, with no call of
  \<open>finalizeTranscription\<close>; the buffer holds at most a chunk; and \<open>recorded_samples\<close> has
  counted every sample of the frames, however many they are (as an \<open>int\<close> of the source it
  holds the count of more than 37 hours of audio).
\<close>

theorem continuous_speech_outlasts_cutoff:
  assumes "is_listening s"
    and "length (audio_buffer s) \<le> TRANSCRIPTION_CHUNK_SIZE"
    and "list_all (\<lambda>f. vad_result f \<noteq> - 2 \<and> length (samples f) \<le> 36000) fs"
  shows "within_cycle eng s fs
     \<and> is_listening (startStreaming eng s fs)
     \<and> startStreaming eng s fs = foldl (listening_frame_chunks eng) s fs
     \<and> length (audio_buffer (startStreaming eng s fs)) \<le> TRANSCRIPTION_CHUNK_SIZE
     \<and> recorded_samples (startStreaming eng s fs)
         = recorded_samples s + (\<Sum>f\<leftarrow>fs. int (length (samples f)))"
  using assms
proof (induction fs arbitrary: s)
  case Nil
  then show ?case by (simp add: startStreaming_def)
next
  case (Cons f fs)
  have f: "vad_result f \<noteq> - 2" "length (samples f) \<le> 36000"
    and fs: "list_all (\<lambda>f. vad_result f \<noteq> - 2 \<and> length (samples f) \<le> 36000) fs"
    using Cons.prems(3) by simp_all
  have step: "startStreaming_step eng s f = listening_frame_chunks eng s f"
    by (rule speech_frame_step [OF Cons.prems(1) Cons.prems(2) f])
  have l: "is_listening (listening_frame_chunks eng s f)"
    using Cons.prems(1) by (simp add: listening_frame_chunks_counters)
  have b: "length (audio_buffer (listening_frame_chunks eng s f)) \<le> TRANSCRIPTION_CHUNK_SIZE"
    by (rule short_frames_never_reach_cutoff [OF Cons.prems(2) f(2)])
  have e: "startStreaming eng s (f # fs)
           = startStreaming eng (listening_frame_chunks eng s f) fs"
    by (simp add: startStreaming_Cons step)
  have fo: "foldl (listening_frame_chunks eng) s (f # fs)
            = foldl (listening_frame_chunks eng) (listening_frame_chunks eng s f) fs"
    by simp
  have w: "within_cycle eng s (f # fs) = within_cycle eng (listening_frame_chunks eng s f) fs"
    using Cons.prems(1) by (simp add: step)
  have n: "(\<Sum>g\<leftarrow>f # fs. int (length (samples g)))
           = int (length (samples f)) + (\<Sum>g\<leftarrow>fs. int (length (samples g)))"
    by simp
  have r: "recorded_samples (listening_frame_chunks eng s f)
           = recorded_samples s + int (length (samples f))"
    by (rule listening_frame_chunks_recorded)
  note ih = Cons.IH [OF l b fs, unfolded r]
  note ih1 = ih [THEN conjunct1]
  note ih2 = ih [THEN conjunct2, THEN conjunct1]
  note ih3 = ih [THEN conjunct2, THEN conjunct2, THEN conjunct1]
  note ih4 = ih [THEN conjunct2, THEN conjunct2, THEN conjunct2, THEN conjunct1]
  note ih5 = ih [THEN conjunct2, THEN conjunct2, THEN conjunct2, THEN conjunct2]
  show ?case
    unfolding e fo w n
    using ih1 ih2 ih3 ih4 ih5 by (simp add: add.assoc)
qed

text \<open>
  The trigger and then 610 frames of a tenth of a second each, all taken for speech: 61 seconds
  after the trigger the object is still listening.
\<close>

theorem continuous_speech_outlasts_cutoff_witness:
  "is_listening (startStreaming hello_engine initial [trigger_frame])
   \<and> length (audio_buffer (startStreaming hello_engine initial [trigger_frame]))
       \<le> TRANSCRIPTION_CHUNK_SIZE
   \<and> list_all (\<lambda>f. vad_result f \<noteq> - 2 \<and> length (samples f) \<le> 36000)
        (replicate 610 (speech_frame 1600 1000))
   \<and> within_cycle hello_engine (startStreaming hello_engine initial [trigger_frame])
        (replicate 610 (speech_frame 1600 1000))
   \<and> is_listening
        (startStreaming hello_engine initial
           (trigger_frame # replicate 610 (speech_frame 1600 1000)))
   \<and> length (audio_buffer
        (startStreaming hello_engine initial
           (trigger_frame # replicate 610 (speech_frame 1600 1000))))
       \<le> TRANSCRIPTION_CHUNK_SIZE
   \<and> recorded_samples
        (startStreaming hello_engine initial
           (trigger_frame # replicate 610 (speech_frame 1600 1000)))
       = 976000
   \<and> (16000 * 60 :: int) < 976000"
proof -
  have t: "startStreaming hello_engine initial [trigger_frame] = hotword_detected initial"
    by (simp add: startStreaming_def startStreaming_step_def initial_def trigger_frame_def)
  have l: "is_listening (hotword_detected initial)"
    by (simp add: hotword_detected_def)
  have b: "length (audio_buffer (hotword_detected initial)) \<le> TRANSCRIPTION_CHUNK_SIZE"
    by (simp add: hotword_detected_def)
  have r: "recorded_samples (hotword_detected initial) = 0"
    by (simp add: hotword_detected_def)
  have fs: "list_all (\<lambda>f. vad_result f \<noteq> - 2 \<and> length (samples f) \<le> 36000)
              (replicate 610 (speech_frame 1600 1000))"
    by (simp add: list_all_iff speech_frame_def)
  have c: "startStreaming hello_engine initial
             (trigger_frame # replicate 610 (speech_frame 1600 1000))
           = startStreaming hello_engine (hotword_detected initial)
               (replicate 610 (speech_frame 1600 1000))"
    using t by (simp add: startStreaming_def)
  have n: "(\<Sum>f\<leftarrow>replicate 610 (speech_frame 1600 1000). int (length (samples f))) = 976000"
    by (simp add: sum_list_replicate speech_frame_def)
  note th = continuous_speech_outlasts_cutoff [OF l b fs, of hello_engine, unfolded n r]
  note w = th [THEN conjunct1]
  note i = th [THEN conjunct2, THEN conjunct1]
  note le = th [THEN conjunct2, THEN conjunct2, THEN conjunct2, THEN conjunct1]
  note rs = th [THEN conjunct2, THEN conjunct2, THEN conjunct2, THEN conjunct2]
  show ?thesis
    unfolding t c
    using l b fs w i le rs by simp
qed

subsection \<open>Finalisation\<close>

text \<open>
  Claim C6. \<open>finalizeTranscription\<close> hands the whole remaining buffer, not a chunk of it, to
  the recognition engine exactly when the buffer is not empty, a transcription has started and
  the buffer holds at least half a chunk; the complete transcription is reported exactly when a
  transcription has started. So a buffer of less than half a chunk is dropped without an
  invocation, and without a started transcription nothing is invoked and nothing reported. The
  buffer is empty afterwards.
\<close>

theorem final_pass_on_whole_buffer:
  "events_since s (finalizeTranscription eng s)
     = (if audio_buffer s \<noteq> [] \<and> transcription_started s
            \<and> TRANSCRIPTION_CHUNK_SIZE div 2 \<le> length (audio_buffer s)
        then [FinalPass (audio_buffer s),
              Complete
                (clean_up (current_transcription s
                   @ transcribeWithWhisper eng (invocations s) (audio_buffer s)))
                (recorded_samples s)
                (count_list
                   (clean_up (current_transcription s
                      @ transcribeWithWhisper eng (invocations s) (audio_buffer s)))
                   CHR '' '' + 1)]
        else if transcription_started s
        then [Complete (clean_up (current_transcription s)) (recorded_samples s)
                (count_list (clean_up (current_transcription s)) CHR '' '' + 1)]
        else [])
   \<and> invocations (finalizeTranscription eng s)
       = (if audio_buffer s \<noteq> [] \<and> transcription_started s
              \<and> TRANSCRIPTION_CHUNK_SIZE div 2 \<le> length (audio_buffer s)
          then invocations s + 1 else invocations s)
   \<and> (length (audio_buffer s) < TRANSCRIPTION_CHUNK_SIZE div 2 \<longrightarrow>
         invocations (finalizeTranscription eng s) = invocations s)
   \<and> (\<not> transcription_started s \<longrightarrow>
         invocations (finalizeTranscription eng s) = invocations s
         \<and> history (finalizeTranscription eng s) = history s)
   \<and> audio_buffer (finalizeTranscription eng s) = []"
  by (simp add: finalizeTranscription_def Let_def events_since_def TRANSCRIPTION_CHUNK_SIZE_def)

theorem final_pass_on_whole_buffer_witness:
  "events_since
     (hotword_detected initial
        \<lparr>audio_buffer := replicate 24000 1000, transcription_started := True,
         current_transcription := ''hello ''\<rparr>)
     (finalizeTranscription hello_engine
        (hotword_detected initial
           \<lparr>audio_buffer := replicate 24000 1000, transcription_started := True,
            current_transcription := ''hello ''\<rparr>))
     = [FinalPass (replicate 24000 1000), Complete ''hello hello'' 0 2]
   \<and> invocations
        (finalizeTranscription hello_engine
           (hotword_detected initial
              \<lparr>audio_buffer := replicate 23999 1000, transcription_started := True,
               current_transcription := ''hello ''\<rparr>)) = 0
   \<and> history
        (finalizeTranscription hello_engine
           (hotword_detected initial\<lparr>audio_buffer := replicate 24000 1000\<rparr>)) = []"
proof -
  have c: "clean_up ''hello hello'' = ''hello hello''"
    by code_simp
  have n: "count_list ''hello hello'' CHR '' '' + 1 = 2"
    by code_simp
  show ?thesis
    using final_pass_on_whole_buffer [of
        "hotword_detected initial
           \<lparr>audio_buffer := replicate 24000 1000, transcription_started := True,
            current_transcription := ''hello ''\<rparr>" hello_engine]
      final_pass_on_whole_buffer [of
        "hotword_detected initial
           \<lparr>audio_buffer := replicate 23999 1000, transcription_started := True,
            current_transcription := ''hello ''\<rparr>" hello_engine]
      final_pass_on_whole_buffer [of
        "hotword_detected initial\<lparr>audio_buffer := replicate 24000 1000\<rparr>" hello_engine]
    by (simp add: hotword_detected_def initial_def TRANSCRIPTION_CHUNK_SIZE_def
        hello_engine_text c n)
qed

subsection \<open>A failing invocation of the recognition engine\<close>

text \<open>
  In \<open>main.cpp\<close> a failing \<open>whisper_full\<close> yields the empty text, whatever segments an
  earlier call has left in the context.
\<close>

lemma whisper_full_failure_is_empty:
  "full_ret run \<noteq> 0 \<Longrightarrow> transcribeWithWhisper_capi run = []"
  by (simp add: transcribeWithWhisper_capi_def)

lemma broken_cli_text:
  "transcribeWithWhisper broken_cli k audio = ''[CreateProcess failed: 2]''"
  unfolding transcribeWithWhisper_def broken_cli_def transcribeWithWhisper_cli_def
  by (simp, code_simp)

lemma broken_cli_text_accepted:
  "text_accepted broken_cli ''[CreateProcess failed: 2]''"
  unfolding broken_cli_def by (simp, code_simp)

lemma broken_cli_overlaps:
  "skipped_overlap broken_cli = 12000" "first_overlap broken_cli = 3000"
  "later_overlap broken_cli = 1500"
  by (simp_all add: broken_cli_def TRANSCRIPTION_CHUNK_SIZE_def)

lemma silent_cli_text:
  "transcribeWithWhisper silent_cli k audio = []"
  unfolding transcribeWithWhisper_def silent_cli_def transcribeWithWhisper_cli_def
  by (simp add: final_trim_def)

lemma silent_cli_overlaps:
  "skipped_overlap silent_cli = 12000" "first_overlap silent_cli = 3000"
  "later_overlap silent_cli = 1500"
  by (simp_all add: silent_cli_def TRANSCRIPTION_CHUNK_SIZE_def)

text \<open>
  A child that writes a line of its own to standard error and exits with code 1: the line is
  none of the noise, so it is the text of the invocation.
\<close>

lemma nonzero_exit_text:
  "transcribeWithWhisper_cli (ProcessExited [''error: failed to read audio'' @ [CHR 0x0A]] 1)
     = ''error: failed to read audio''"
  by code_simp

text \<open>
  A zero byte in a block hides the rest of that block from the function, and of that block
  only.
\<close>

lemma zero_byte_cuts_block:
  "transcribeWithWhisper_cli
     (ProcessExited [''ab'' @ [CHR 0x00] @ ''cd'', ''ef'' @ [CHR 0x0A]] 0) = ''abef''"
  by code_simp

lemma clean_up_failure_text:
  "clean_up ''[CreateProcess failed: 2] '' = ''[CreateProcess failed: 2]''"
  by code_simp

text \<open>
  Claim C4 does not hold for \<open>whisper_streaming_transcriber.cpp\<close>. When \<open>CreateProcessA\<close>
  fails with error 2 on the first chunk of a cycle (three seconds of loud audio),
  \<open>transcribeWithWhisper\<close> returns the text "[CreateProcess failed: 2]", the filter lets it
  through, and it is appended to the transcription, which counts as started; finalising then
  reports it as the complete transcription. An invocation that produces nothing leaves the
  transcription empty and not started. The chunk is taken from the buffer alike in both runs.
\<close>

theorem spawn_failure_text_reaches_transcript:
  "current_transcription
     (startStreaming broken_cli initial [trigger_frame, speech_frame 48000 1000])
     = ''[CreateProcess failed: 2] ''
   \<and> transcription_started
        (startStreaming broken_cli initial [trigger_frame, speech_frame 48000 1000])
   \<and> history
        (finalizeTranscription broken_cli
           (startStreaming broken_cli initial [trigger_frame, speech_frame 48000 1000]))
       = [ChunkTranscribed (replicate 48000 1000) 3000,
          Complete ''[CreateProcess failed: 2]'' 48000 3]
   \<and> current_transcription
        (startStreaming silent_cli initial [trigger_frame, speech_frame 48000 1000]) = []
   \<and> \<not> transcription_started
        (startStreaming silent_cli initial [trigger_frame, speech_frame 48000 1000])
   \<and> history
        (finalizeTranscription silent_cli
           (startStreaming silent_cli initial [trigger_frame, speech_frame 48000 1000]))
       = [ChunkTranscribed (replicate 48000 1000) 3000]
   \<and> audio_buffer
        (startStreaming broken_cli initial [trigger_frame, speech_frame 48000 1000])
       = audio_buffer
           (startStreaming silent_cli initial [trigger_frame, speech_frame 48000 1000])"
  by (simp add: session_eval_core broken_cli_text broken_cli_text_accepted broken_cli_overlaps
      silent_cli_text silent_cli_overlaps clean_up_failure_text)

end
